theory Spec2Isabelle
  imports Main "HOL-Library.Word" "HOL-Library.Log_Nat" "HOL-Library.Sublist"
begin

section \<open>Python floats: IEEE 754 binary64\<close>

text \<open>
  The tools of \<^verbatim>\<open>server.py\<close> take and return Python \<^verbatim>\<open>float\<close> values, which are
  IEEE 754 binary64 numbers: one sign bit, eleven bits of biased exponent and fifty-two
  bits of fraction. A value is modelled by exactly these three fields, so that signed
  zeros, subnormal numbers, infinities and NaNs are all present.
\<close>

datatype double = Double (sign_bit: bool) (biased_exp: "11 word") (fraction: "52 word")

definition is_nan :: "double \<Rightarrow> bool" where
  "is_nan x \<longleftrightarrow> biased_exp x = 2047 \<and> fraction x \<noteq> 0"

definition is_inf :: "double \<Rightarrow> bool" where
  "is_inf x \<longleftrightarrow> biased_exp x = 2047 \<and> fraction x = 0"

definition is_finite :: "double \<Rightarrow> bool" where
  "is_finite x \<longleftrightarrow> biased_exp x \<noteq> 2047"

definition is_zero :: "double \<Rightarrow> bool" where
  "is_zero x \<longleftrightarrow> biased_exp x = 0 \<and> fraction x = 0"

text \<open>
  Every finite double is a whole multiple of \<open>2\<^sup>-\<^sup>1\<^sup>0\<^sup>7\<^sup>4\<close>. \<open>magnitude\<close> is the absolute value
  counted in that unit: the fraction itself for a subnormal number (biased exponent 0),
  and the fraction with its hidden bit, shifted by the exponent, otherwise. For an
  infinity the same formula gives \<open>2\<^sup>2\<^sup>0\<^sup>9\<^sup>8\<close>, which is above every finite magnitude.
\<close>

definition magnitude :: "double \<Rightarrow> nat" where
  "magnitude x =
     (if biased_exp x = 0 then unat (fraction x)
      else (2 ^ 52 + unat (fraction x)) * 2 ^ (unat (biased_exp x) - 1))"

definition signed_units :: "double \<Rightarrow> int" where
  "signed_units x = (if sign_bit x then - int (magnitude x) else int (magnitude x))"

text \<open>The value of a finite double as a rational number.\<close>

definition valof :: "double \<Rightarrow> rat" where
  "valof x = of_int (signed_units x) / 2 ^ 1074"

subsection \<open>Rounding to nearest, ties to even\<close>

text \<open>
  \<open>round_half_even n d\<close> is the integer nearest to \<open>n / d\<close>, the even one when two are
  equally near.
\<close>

text \<open>
  \<open>bit_length n\<close> is the number of binary digits of \<open>n\<close> (Python's \<^verbatim>\<open>int.bit_length\<close>).
\<close>

fun bit_length :: "nat \<Rightarrow> nat" where
  "bit_length n = (if n = 0 then 0 else Suc (bit_length (n div 2)))"

declare bit_length.simps [simp del]

definition round_half_even :: "nat \<Rightarrow> nat \<Rightarrow> nat" where
  "round_half_even n d =
     (let q = n div d; r = n mod d
      in if 2 * r < d then q
         else if d < 2 * r then q + 1
         else if even q then q else q + 1)"

text \<open>
  \<open>encode s e m\<close> builds the double with biased exponent \<open>e\<close> and fraction \<open>m\<close>; an
  exponent beyond the largest finite one is overflow and gives the infinity of that sign.
\<close>

definition encode :: "bool \<Rightarrow> nat \<Rightarrow> nat \<Rightarrow> double" where
  "encode s e m = (if 2047 \<le> e then Double s 2047 0 else Double s (of_nat e) (of_nat m))"

text \<open>
  \<open>round_units s n d\<close> is the double of sign \<open>s\<close> nearest to the exact magnitude
  \<open>n / d\<close> (in units of \<open>2\<^sup>-\<^sup>1\<^sup>0\<^sup>7\<^sup>4\<close>). Up to \<open>2\<^sup>5\<^sup>3\<close> units the doubles are one unit apart;
  above, a magnitude of \<open>53 + k\<close> bits is rounded to a multiple of \<open>2\<^sup>k\<close>, which keeps 53
  significant bits.
\<close>

definition round_units :: "bool \<Rightarrow> nat \<Rightarrow> nat \<Rightarrow> double" where
  "round_units s n d =
     (let k = bit_length (n div d) - 53;
          m = round_half_even n (d * 2 ^ k)
      in if m < 2 ^ 52 then encode s 0 m
         else if m = 2 ^ 53 then encode s (k + 2) 0
         else encode s (k + 1) (m - 2 ^ 52))"

subsection \<open>Constants and sign operations\<close>

definition pos_zero :: double where "pos_zero = Double False 0 0"
definition neg_zero :: double where "neg_zero = Double True 0 0"
definition dbl_one :: double where "dbl_one = Double False 1023 0"
definition dbl_two :: double where "dbl_two = Double False 1024 0"
definition pos_inf :: double where "pos_inf = Double False 2047 0"
definition quiet_nan :: double where "quiet_nan = Double False 2047 (2 ^ 51)"

definition fneg :: "double \<Rightarrow> double" where
  "fneg x = Double (\<not> sign_bit x) (biased_exp x) (fraction x)"

definition fabs :: "double \<Rightarrow> double" where
  "fabs x = Double False (biased_exp x) (fraction x)"

definition copysign :: "double \<Rightarrow> double \<Rightarrow> double" where
  "copysign x y = Double (sign_bit y) (biased_exp x) (fraction x)"

text \<open>Python's conversion of an \<^verbatim>\<open>int\<close> to a \<^verbatim>\<open>float\<close> (for the literals of the examples).\<close>

definition float_of_int :: "int \<Rightarrow> double" where
  "float_of_int i = round_units (i < 0) (nat \<bar>i\<bar> * 2 ^ 1074) 1"

subsection \<open>Comparison\<close>

text \<open>
  The comparisons of IEEE 754, which Python's \<^verbatim>\<open>==\<close> and \<^verbatim>\<open><\<close> on floats are: a NaN
  is unordered and unequal to everything, itself included, and the two zeros are equal.
\<close>

definition float_eq :: "double \<Rightarrow> double \<Rightarrow> bool" where
  "float_eq x y \<longleftrightarrow> \<not> is_nan x \<and> \<not> is_nan y \<and> signed_units x = signed_units y"

definition float_lt :: "double \<Rightarrow> double \<Rightarrow> bool" where
  "float_lt x y \<longleftrightarrow> \<not> is_nan x \<and> \<not> is_nan y \<and> signed_units x < signed_units y"

text \<open>
  Python compares a float with an \<^verbatim>\<open>int\<close> by their exact values: they are equal when
  the float is finite and its value is that integer.
\<close>

definition float_eq_int :: "double \<Rightarrow> int \<Rightarrow> bool" where
  "float_eq_int x i \<longleftrightarrow> is_finite x \<and> signed_units x = i * 2 ^ 1074"

subsection \<open>Arithmetic\<close>

text \<open>
  Each operation returns the exact result rounded to nearest, ties to even. An exact
  zero sum is negative only when both operands are negative zeros; products and quotients
  take the exclusive-or of the signs. Invalid operations give a NaN.
\<close>

definition fadd :: "double \<Rightarrow> double \<Rightarrow> double" where
  "fadd x y =
     (if is_nan x \<or> is_nan y then quiet_nan
      else if is_inf x then (if is_inf y \<and> sign_bit x \<noteq> sign_bit y then quiet_nan else x)
      else if is_inf y then y
      else let s = signed_units x + signed_units y
           in if s = 0 then Double (sign_bit x \<and> sign_bit y) 0 0
              else round_units (s < 0) (nat \<bar>s\<bar>) 1)"

definition fsub :: "double \<Rightarrow> double \<Rightarrow> double" where
  "fsub x y = fadd x (fneg y)"

definition fmul :: "double \<Rightarrow> double \<Rightarrow> double" where
  "fmul x y =
     (let s = (sign_bit x \<noteq> sign_bit y)
      in if is_nan x \<or> is_nan y then quiet_nan
         else if is_inf x \<or> is_inf y then
           (if is_zero x \<or> is_zero y then quiet_nan else Double s 2047 0)
         else round_units s (magnitude x * magnitude y) (2 ^ 1074))"

definition fdiv :: "double \<Rightarrow> double \<Rightarrow> double" where
  "fdiv x y =
     (let s = (sign_bit x \<noteq> sign_bit y)
      in if is_nan x \<or> is_nan y then quiet_nan
         else if is_inf x then (if is_inf y then quiet_nan else Double s 2047 0)
         else if is_inf y then Double s 0 0
         else if is_zero y then (if is_zero x then quiet_nan else Double s 2047 0)
         else round_units s (magnitude x * 2 ^ 1074) (magnitude y))"

text \<open>
  C's \<^verbatim>\<open>floor\<close> and \<^verbatim>\<open>fmod\<close>, both exact: the largest integer not above \<open>x\<close>, and the
  remainder of \<open>x\<close> by \<open>y\<close> with the sign of \<open>x\<close>.
\<close>

definition c_floor :: "double \<Rightarrow> double" where
  "c_floor x =
     (if \<not> is_finite x then x
      else let fl = signed_units x div 2 ^ 1074
           in if fl = 0 then Double (sign_bit x) 0 0
              else round_units (fl < 0) (nat \<bar>fl\<bar> * 2 ^ 1074) 1)"

definition c_fmod :: "double \<Rightarrow> double \<Rightarrow> double" where
  "c_fmod x y =
     (if is_nan x \<or> is_nan y \<or> is_inf x \<or> is_zero y then quiet_nan
      else if is_inf y then x
      else round_units (sign_bit x) (magnitude x mod magnitude y) 1)"

section \<open>Python's operators on floats\<close>

text \<open>
  A Python operation either returns a value or raises an exception; the model returns
  \<open>Inr\<close> of the value or \<open>Inl\<close> of the exception. \<open>ValueError\<close> and \<open>OSError\<close> (with its
  subclasses, such as \<^verbatim>\<open>BrokenPipeError\<close>) carry their message.
\<close>

datatype py_error = ValueError string | ZeroDivisionError | OverflowError | OSError string

text \<open>
  \<^verbatim>\<open>a + b\<close>, \<^verbatim>\<open>a - b\<close> and \<^verbatim>\<open>a * b\<close> on floats are the IEEE operations and raise nothing:
  an overflow gives an infinity. \<^verbatim>\<open>a / b\<close> raises \<^verbatim>\<open>ZeroDivisionError\<close> when \<^verbatim>\<open>b == 0.0\<close>.
\<close>

definition py_add :: "double \<Rightarrow> double \<Rightarrow> py_error + double" where
  "py_add a b = Inr (fadd a b)"

definition py_sub :: "double \<Rightarrow> double \<Rightarrow> py_error + double" where
  "py_sub a b = Inr (fsub a b)"

definition py_mul :: "double \<Rightarrow> double \<Rightarrow> py_error + double" where
  "py_mul a b = Inr (fmul a b)"

definition py_truediv :: "double \<Rightarrow> double \<Rightarrow> py_error + double" where
  "py_truediv a b = (if float_eq b pos_zero then Inl ZeroDivisionError else Inr (fdiv a b))"

subsection \<open>The power operator\<close>

text \<open>
  \<^verbatim>\<open>base ** exponent\<close> on floats settles the special cases itself and leaves the rest to
  the C library. What the C library and the complex type compute is not fixed by the
  language, so both are parameters of the model:
  \<^item> \<open>libm_pow\<close> is C's \<^verbatim>\<open>pow\<close>, called only with a finite positive base other than 1 and
    a finite non-zero exponent; it returns its result and the \<^verbatim>\<open>errno\<close> it leaves;
  \<^item> \<open>strerror\<close> is the message of an \<^verbatim>\<open>errno\<close>;
  \<^item> \<open>complex_pow\<close> is the power of the complex type, which a negative base with a
    non-integer exponent is handed to; it returns the real and imaginary part, or raises.
\<close>

datatype c_errno = E_OK | E_RANGE | E_OTHER nat

record platform =
  libm_pow :: "double \<Rightarrow> double \<Rightarrow> double \<times> c_errno"
  strerror :: "c_errno \<Rightarrow> string"
  complex_pow :: "double \<Rightarrow> double \<Rightarrow> py_error + double \<times> double"

text \<open>The result of \<^verbatim>\<open>**\<close>: a float, or a complex number with its two parts.\<close>

datatype py_number = PyFloat double | PyComplex double double

text \<open>\<^verbatim>\<open>DOUBLE_IS_ODD_INTEGER(x)\<close> is \<^verbatim>\<open>fmod(fabs(x), 2.0) == 1.0\<close>.\<close>

definition double_is_odd_integer :: "double \<Rightarrow> bool" where
  "double_is_odd_integer x = float_eq (c_fmod (fabs x) dbl_two) dbl_one"

text \<open>
  After \<^verbatim>\<open>pow\<close> returns, an infinite result with \<^verbatim>\<open>errno\<close> unset counts as a range error,
  and a range error with a zero result (an underflow) is dropped.
\<close>

definition adjust_erange :: "double \<Rightarrow> c_errno \<Rightarrow> c_errno" where
  "adjust_erange ix e =
     (if e = E_OK then (if is_inf ix then E_RANGE else E_OK)
      else if e = E_RANGE \<and> float_eq ix pos_zero then E_OK
      else e)"

definition py_pow :: "platform \<Rightarrow> double \<Rightarrow> double \<Rightarrow> py_error + py_number" where
  "py_pow P iv iw =
     (if float_eq iw pos_zero then Inr (PyFloat dbl_one)
      else if is_nan iv then Inr (PyFloat iv)
      else if is_nan iw then Inr (PyFloat (if float_eq iv dbl_one then dbl_one else iw))
      else if is_inf iw then
        (if float_eq (fabs iv) dbl_one then Inr (PyFloat dbl_one)
         else if float_lt pos_zero iw = float_lt dbl_one (fabs iv) then Inr (PyFloat (fabs iw))
         else Inr (PyFloat pos_zero))
      else if is_inf iv then
        (if float_lt pos_zero iw
         then Inr (PyFloat (if double_is_odd_integer iw then iv else fabs iv))
         else Inr (PyFloat (if double_is_odd_integer iw then copysign pos_zero iv else pos_zero)))
      else if float_eq iv pos_zero then
        (if float_lt iw pos_zero then Inl ZeroDivisionError
         else Inr (PyFloat (if double_is_odd_integer iw then iv else pos_zero)))
      else if float_lt iv pos_zero \<and> \<not> float_eq iw (c_floor iw) then
        (case complex_pow P iv iw of
           Inl err \<Rightarrow> Inl err
         | Inr (re, im) \<Rightarrow> Inr (PyComplex re im))
      else
        (let negate_result = (float_lt iv pos_zero \<and> double_is_odd_integer iw);
             av = (if float_lt iv pos_zero then fneg iv else iv)
         in if float_eq av dbl_one
            then Inr (PyFloat (if negate_result then fneg dbl_one else dbl_one))
            else
              (case libm_pow P av iw of
                 (ix, e) \<Rightarrow>
                   (case adjust_erange ix e of
                      E_OK \<Rightarrow> Inr (PyFloat (if negate_result then fneg ix else ix))
                    | E_RANGE \<Rightarrow> Inl OverflowError
                    | E_OTHER n \<Rightarrow> Inl (ValueError (strerror P (E_OTHER n)))))))"

section \<open>The tools of \<^verbatim>\<open>server.py\<close>\<close>

text \<open>
  \<^verbatim>\<open>add\<close>, \<^verbatim>\<open>subtract\<close> and \<^verbatim>\<open>multiply\<close> return the result of the operator. \<^verbatim>\<open>divide\<close>
  first compares the divisor with the integer \<^verbatim>\<open>0\<close> and raises
  \<^verbatim>\<open>ValueError("Cannot divide by zero")\<close>. \<^verbatim>\<open>power\<close> returns \<^verbatim>\<open>base ** exponent\<close>.
  The last two are named \<open>divide_tool\<close> and \<open>power_tool\<close> here.
\<close>

definition add :: "double \<Rightarrow> double \<Rightarrow> py_error + double" where
  "add a b = py_add a b"

definition subtract :: "double \<Rightarrow> double \<Rightarrow> py_error + double" where
  "subtract a b = py_sub a b"

definition multiply :: "double \<Rightarrow> double \<Rightarrow> py_error + double" where
  "multiply a b = py_mul a b"

definition divide_tool :: "double \<Rightarrow> double \<Rightarrow> py_error + double" where
  "divide_tool a b =
     (if float_eq_int b 0 then Inl (ValueError ''Cannot divide by zero'')
      else py_truediv a b)"

definition power_tool :: "platform \<Rightarrow> double \<Rightarrow> double \<Rightarrow> py_error + py_number" where
  "power_tool P base exponent = py_pow P base exponent"

section \<open>The prompt\<close>

text \<open>
  \<^verbatim>\<open>bodmas_calculation_prompt\<close> returns an f-string: a fixed text with the expression
  put in at two places. The three fixed pieces follow, one source line per line.
\<close>

definition prompt_before_expression :: string where
  "prompt_before_expression =
     ''You are a BODMAS calculation assistant with access to mathematical operation tools.\<newline>'' @
     ''\<newline>'' @
     ''**Expression to evaluate:** ''"

definition prompt_between_expressions :: string where
  "prompt_between_expressions =
     ''\<newline>'' @
     ''\<newline>'' @
     ''**Your task:**\<newline>'' @
     ''1. First, check the bodmas_chart.jpg resource to understand the order of operations\<newline>'' @
     ''2. Break down the expression according to BODMAS rules:\<newline>'' @
     ''   - B: Brackets (Parentheses) first\<newline>'' @
     ''   - O: Orders (Exponents/Powers) \<newline>'' @
     ''   - D: Division and M: Multiplication (left to right)\<newline>'' @
     ''   - A: Addition and S: Subtraction (left to right)\<newline>'' @
     ''\<newline>'' @
     ''3. Use the available tools to calculate step by step:\<newline>'' @
     ''   - add(a, b) - for addition\<newline>'' @
     ''   - subtract(a, b) - for subtraction  \<newline>'' @
     ''   - multiply(a, b) - for multiplication\<newline>'' @
     ''   - divide(a, b) - for division\<newline>'' @
     ''   - power(base, exponent) - for exponents\<newline>'' @
     ''\<newline>'' @
     ''4. Show each step clearly:\<newline>'' @
     ''   - Identify which operation to perform first according to BODMAS\<newline>'' @
     ''   - Call the appropriate tool with the correct arguments\<newline>'' @
     ''   - Use the result in the next step\<newline>'' @
     ''   - Continue until you reach the final answer\<newline>'' @
     ''\<newline>'' @
     ''Please evaluate: ''"

definition prompt_after_expression :: string where
  "prompt_after_expression =
     ''\<newline>'' @
     ''\<newline>'' @
     ''Remember to always follow BODMAS order and use the tools for each calculation step.''"

definition bodmas_calculation_prompt :: "string \<Rightarrow> string" where
  "bodmas_calculation_prompt expression =
     prompt_before_expression @ expression @ prompt_between_expressions @ expression @
     prompt_after_expression"

text \<open>
  \<open>count_occurrences sub s\<close> is the number of positions of \<open>s\<close> at which \<open>sub\<close> starts,
  for a non-empty \<open>sub\<close>.
\<close>

fun count_occurrences :: "string \<Rightarrow> string \<Rightarrow> nat" where
  "count_occurrences sub [] = 0"
| "count_occurrences sub (c # cs) =
     (if prefix sub (c # cs) then 1 else 0) + count_occurrences sub cs"

section \<open>The resources\<close>

text \<open>
  Reading a resource is an action on the world outside the program: the files that
  \<^verbatim>\<open>open\<close> can read, the lines printed so far, and the state of standard output.
  Opening and reading a path gives its bytes, raises \<^verbatim>\<open>FileNotFoundError\<close>, or raises
  another exception with a message.
\<close>

datatype read_outcome = Contents "8 word list" | FileNotFoundError | OtherException string

text \<open>
  \<open>stdout_error\<close> is the exception that writing to standard output raises, if any:
  \<^verbatim>\<open>ValueError\<close> when the stream has been closed, an \<^verbatim>\<open>OSError\<close> when the write fails (a
  broken pipe, a full disk).
\<close>

record world =
  files :: "string \<Rightarrow> read_outcome"
  printed :: "string list"
  stdout_error :: "py_error option"

text \<open>\<^verbatim>\<open>print\<close> appends a line to standard output, or raises what the write raises.\<close>

definition print_line :: "string \<Rightarrow> world \<Rightarrow> py_error + world" where
  "print_line l w =
     (case stdout_error w of
        None \<Rightarrow> Inr (w\<lparr>printed := printed w @ [l]\<rparr>)
      | Some err \<Rightarrow> Inl err)"

text \<open>
  The two handlers of \<^verbatim>\<open>bodmas_chart_image\<close> print before they return the empty bytes.
  An exception raised inside a handler is not caught by the other handlers of the same
  \<^verbatim>\<open>try\<close>: it leaves the function.
\<close>

definition bodmas_chart_image :: "world \<Rightarrow> (py_error + 8 word list) \<times> world" where
  "bodmas_chart_image w =
     (case files w ''resources/bodmas.jpg'' of
        Contents bytes \<Rightarrow> (Inr bytes, w)
      | FileNotFoundError \<Rightarrow>
          (case print_line ''Warning: bodmas_chart.jpg not found'' w of
             Inl err \<Rightarrow> (Inl err, w)
           | Inr w' \<Rightarrow> (Inr [], w'))
      | OtherException e \<Rightarrow>
          (case print_line (''Error loading image: '' @ e) w of
             Inl err \<Rightarrow> (Inl err, w)
           | Inr w' \<Rightarrow> (Inr [], w')))"

text \<open>
  The guide is a string literal. Its characters outside ASCII (the superscripts, the
  root, division and multiplication signs) are written as their UTF-8 bytes.
\<close>

definition guide_text :: string where
  "guide_text =
     ''# BODMAS Quick Reference\<newline>'' @
     ''\<newline>'' @
     ''## Order of Operations:\<newline>'' @
     ''1. **B**rackets (Parentheses) - ( ), [ ], { }\<newline>'' @
     ''2. **O**rders (Powers/Exponents) - ^, '' @ [CHR 0xC2, CHR 0xB2] @ '', '' @ [CHR 0xC2, CHR 0xB3] @ '', '' @ [CHR 0xE2, CHR 0x88, CHR 0x9A] @ ''\<newline>'' @
     ''3. **D**ivision '' @ [CHR 0xC3, CHR 0xB7] @ '' / and **M**ultiplication '' @ [CHR 0xC3, CHR 0x97] @ '' * (left to right)\<newline>'' @
     ''4. **A**ddition + and **S**ubtraction - (left to right)\<newline>'' @
     ''\<newline>'' @
     ''## Remember:\<newline>'' @
     ''- Always work from left to right within the same priority level\<newline>'' @
     ''- Complete innermost brackets first\<newline>'' @
     ''- See bodmas_chart.jpg for visual reference\<newline>''"
definition bodmas_guide :: "world \<Rightarrow> (py_error + string) \<times> world" where
  "bodmas_guide w = (Inr guide_text, w)"

section \<open>What correct rounding means\<close>

text \<open>
  The requirement of IEEE 754 on an operation in the default rounding mode, stated
  apart from the functions above: for the exact result \<open>q\<close>, the returned \<open>r\<close> is not a
  NaN; it is an infinity exactly when \<open>\<bar>q\<bar>\<close> reaches \<open>2\<^sup>1\<^sup>0\<^sup>2\<^sup>4 - 2\<^sup>9\<^sup>7\<^sup>0\<close>, half a step beyond the
  largest finite double; it has the sign of \<open>q\<close>; and when it is finite, no finite double
  is nearer to \<open>q\<close>, and its fraction is even if a finite double of another value is as
  near.
\<close>

definition ieee_rounded :: "rat \<Rightarrow> double \<Rightarrow> bool" where
  "ieee_rounded q r \<longleftrightarrow>
     \<not> is_nan r \<and>
     (is_inf r \<longleftrightarrow> 2 ^ 1024 - 2 ^ 970 \<le> \<bar>q\<bar>) \<and>
     (q < 0 \<longrightarrow> sign_bit r) \<and> (0 < q \<longrightarrow> \<not> sign_bit r) \<and>
     (is_finite r \<longrightarrow>
        (\<forall>y. is_finite y \<longrightarrow>
           \<bar>valof r - q\<bar> \<le> \<bar>valof y - q\<bar> \<and>
           (\<bar>valof y - q\<bar> = \<bar>valof r - q\<bar> \<and> valof y \<noteq> valof r \<longrightarrow>
              even (unat (fraction r)))))"

section \<open>The power function of IEEE 754\<close>

text \<open>
  IEEE 754 (clause 9.2, the recommended correctly rounded functions) has \<^verbatim>\<open>pow\<close> return
  the power of the two values, rounded to nearest. \<open>round_real_units\<close> rounds a magnitude
  that is a real number of units as \<open>round_units\<close> rounds a quotient, and \<open>ieee_pow\<close> is
  C's \<^verbatim>\<open>pow\<close> as that standard has it, for a finite positive base and a finite exponent:
  the rounded power, with \<^verbatim>\<open>errno\<close> set to the range error on overflow. \<open>ieee_platform\<close>
  is a platform with this \<^verbatim>\<open>pow\<close>, whatever its messages and its complex power. A C
  library may round some powers differently; where the power is itself a double, as at
  the exponent 1, a \<^verbatim>\<open>pow\<close> that is accurate to less than one unit in the last place
  returns the same.
\<close>

definition round_half_even_real :: "real \<Rightarrow> nat" where
  "round_half_even_real x =
     (let q = nat \<lfloor>x\<rfloor>; r = x - real q
      in if 2 * r < 1 then q
         else if 1 < 2 * r then q + 1
         else if even q then q else q + 1)"

definition round_real_units :: "bool \<Rightarrow> real \<Rightarrow> double" where
  "round_real_units s u =
     (let k = bit_length (nat \<lfloor>u\<rfloor>) - 53;
          m = round_half_even_real (u / 2 ^ k)
      in if m < 2 ^ 52 then encode s 0 m
         else if m = 2 ^ 53 then encode s (k + 2) 0
         else encode s (k + 1) (m - 2 ^ 52))"

definition ieee_pow :: "double \<Rightarrow> double \<Rightarrow> double \<times> c_errno" where
  "ieee_pow x y =
     (let r = round_real_units False (of_rat (valof x) powr of_rat (valof y) * 2 ^ 1074)
      in (r, if is_inf r then E_RANGE else E_OK))"

definition ieee_platform ::
  "(c_errno \<Rightarrow> string) \<Rightarrow> (double \<Rightarrow> double \<Rightarrow> py_error + double \<times> double) \<Rightarrow> platform" where
  "ieee_platform se cp = \<lparr>libm_pow = ieee_pow, strerror = se, complex_pow = cp\<rparr>"

section \<open>Values for the examples\<close>

text \<open>
  The doubles \<open>0.5\<close> and \<open>-8.0\<close>, and a platform to run the examples on. Its \<^verbatim>\<open>pow\<close> is
  the one of IEEE 754; its complex power knows the value of \<open>(-8.0) ** 0.5\<close> that
  CPython 3.11 on x86-64 Linux prints,
  \<^verbatim>\<open>(1.7319121124709868e-16+2.8284271247461903j)\<close>, and overflows elsewhere.
\<close>

definition dbl_half :: double where "dbl_half = Double False 1022 0"
definition dbl_neg_eight :: double where "dbl_neg_eight = Double True 1026 0"

definition sample_platform :: platform where
  "sample_platform =
     ieee_platform (\<lambda>e. ''Numerical argument out of domain'')
       (\<lambda>x y.
          if x = dbl_neg_eight \<and> y = dbl_half
          then Inr (Double False 970 0x8f5a0be038ed7, Double False 1024 0x6a09e667f3bcd)
          else Inl OverflowError)"

section \<open>Facts about the float model\<close>

lemma magnitude_eq_0_iff: "magnitude x = 0 \<longleftrightarrow> is_zero x"
  by (simp add: magnitude_def is_zero_def unat_eq_0)

lemma signed_units_eq_0_iff: "signed_units x = 0 \<longleftrightarrow> is_zero x"
  by (simp add: signed_units_def magnitude_eq_0_iff)

lemma is_zero_not_nan: "is_zero x \<Longrightarrow> \<not> is_nan x"
  by (auto simp: is_zero_def is_nan_def)

lemma is_zero_finite: "is_zero x \<Longrightarrow> is_finite x"
  by (auto simp: is_zero_def is_finite_def)

lemma pos_zero_facts [simp]:
  "\<not> is_nan pos_zero" "signed_units pos_zero = 0" "is_zero pos_zero" "is_finite pos_zero"
  by (simp_all add: pos_zero_def is_nan_def signed_units_def magnitude_def is_zero_def
        is_finite_def)

text \<open>Both ways of comparing with zero, \<^verbatim>\<open>b == 0\<close> and \<^verbatim>\<open>b == 0.0\<close>, hold of the two zeros only.\<close>

lemma float_eq_pos_zero_iff: "float_eq x pos_zero \<longleftrightarrow> is_zero x"
  using is_zero_not_nan [of x] by (auto simp: float_eq_def signed_units_eq_0_iff)

lemma float_eq_int_0_iff: "float_eq_int x 0 \<longleftrightarrow> is_zero x"
  using is_zero_finite [of x] by (auto simp: float_eq_int_def signed_units_eq_0_iff)

subsection \<open>Bit lengths and rounding\<close>

lemma bit_length_eq_floorlog: "bit_length n = floorlog 2 n"
proof (induction n rule: bit_length.induct)
  case (1 n)
  show ?case
  proof (cases "n = 0")
    case True
    then show ?thesis by (simp add: bit_length.simps floorlog_def)
  next
    case False
    with 1 have "bit_length (n div 2) = floorlog 2 (n div 2)" by simp
    with False show ?thesis
      by (subst bit_length.simps, subst compute_floorlog) simp
  qed
qed

lemma bit_length_0 [simp]: "bit_length 0 = 0"
  by (simp add: bit_length.simps)

lemma bit_length_numeral [simp]:
  "bit_length 1 = 1"
  "bit_length (Suc 0) = 1"
  "bit_length (numeral num.One) = 1"
  "bit_length (numeral (num.Bit0 n)) = Suc (bit_length (numeral n))"
  "bit_length (numeral (num.Bit1 n)) = Suc (bit_length (numeral n))"
  by (simp_all add: bit_length.simps [of 1] bit_length.simps [of "Suc 0"]
        bit_length.simps [of "numeral num.One"] bit_length.simps [of "numeral (num.Bit0 n)"]
        bit_length.simps [of "numeral (num.Bit1 n)"])

lemma bit_length_le: "n < 2 ^ k \<Longrightarrow> bit_length n \<le> k"
  by (simp add: bit_length_eq_floorlog floorlog_leI)

lemma bit_length_ge: "2 ^ k \<le> n \<Longrightarrow> Suc k \<le> bit_length n"
  by (simp add: bit_length_eq_floorlog floorlog_ge_SucI)

lemma bit_length_eqI: "2 ^ k \<le> n \<Longrightarrow> n < 2 ^ Suc k \<Longrightarrow> bit_length n = Suc k"
  using bit_length_le [of n "Suc k"] bit_length_ge [of k n] by simp

lemma less_power_bit_length: "n < 2 ^ bit_length n"
proof (cases "n = 0")
  case True
  then show ?thesis by simp
next
  case False
  then show ?thesis
    using floorlog_bounds [of n 2] by (simp add: bit_length_eq_floorlog)
qed

lemma power_bit_length_le: "0 < n \<Longrightarrow> 2 ^ (bit_length n - 1) \<le> n"
  using floorlog_bounds [of n 2] by (simp add: bit_length_eq_floorlog)

lemma bit_length_mult_power: "0 < m \<Longrightarrow> bit_length (m * 2 ^ k) = bit_length m + k"
  by (simp add: bit_length_eq_floorlog)

lemma round_half_even_exact: "0 < d \<Longrightarrow> round_half_even (m * d) d = m"
  by (simp add: round_half_even_def)

lemma unat_fraction_less: "unat (w :: 52 word) < 2 ^ 52"
  using unsigned_less [of w, where ?'a = nat] by simp

lemma unat_exp_less: "(e :: 11 word) \<noteq> 2047 \<Longrightarrow> unat e < 2047"
proof -
  assume ne: "e \<noteq> 2047"
  have "unat e < 2048" using unsigned_less [of e, where ?'a = nat] by simp
  moreover have "unat e \<noteq> 2047"
  proof
    assume "unat e = 2047"
    then have "of_nat (unat e) = (of_nat 2047 :: 11 word)" by simp
    then have "e = 2047" by simp
    with ne show False by simp
  qed
  ultimately show ?thesis by simp
qed

lemma round_units_magnitude:
  assumes "is_finite x"
  shows "round_units (sign_bit x) (magnitude x) 1 = x"
proof (cases "biased_exp x = 0")
  case True
  let ?f = "unat (fraction x)"
  have f: "?f < 2 ^ 52" by (rule unat_fraction_less)
  then have "bit_length ?f \<le> 52" by (rule bit_length_le)
  then have k: "bit_length ?f - 53 = 0" by simp
  have "round_half_even ?f 1 = ?f"
    using round_half_even_exact [of 1 ?f] by simp
  with True f k have "round_units (sign_bit x) (magnitude x) 1 = Double (sign_bit x) 0 (fraction x)"
    by (simp add: round_units_def magnitude_def encode_def)
  with True show ?thesis by (cases x) simp
next
  case False
  let ?f = "unat (fraction x)"
  let ?e = "unat (biased_exp x)"
  let ?m = "2 ^ 52 + ?f"
  have f: "?f < 2 ^ 52" by (rule unat_fraction_less)
  from assms have e: "?e < 2047" by (simp add: is_finite_def unat_exp_less)
  from False have e0: "0 < ?e" by (simp add: unat_gt_0)
  have "bit_length ?m = 53"
    using f by (intro bit_length_eqI [of 52, simplified]) simp_all
  then have bl: "bit_length (?m * 2 ^ (?e - 1)) = 53 + (?e - 1)"
    by (simp add: bit_length_mult_power)
  have rhe: "round_half_even (?m * 2 ^ (?e - 1)) (2 ^ (?e - 1)) = ?m"
    by (rule round_half_even_exact) simp
  have mag: "magnitude x = ?m * 2 ^ (?e - 1)"
    using False by (simp add: magnitude_def)
  have "round_units (sign_bit x) (magnitude x) 1 = encode (sign_bit x) ?e ?f"
    unfolding round_units_def mag using bl rhe f e0 by (simp add: Let_def)
  also have "\<dots> = Double (sign_bit x) (biased_exp x) (fraction x)"
    using e by (simp add: encode_def)
  finally show ?thesis by simp
qed

subsection \<open>Laws of addition and multiplication\<close>

lemma of_nat_exp_eq_2047: "e < 2047 \<Longrightarrow> (of_nat e :: 11 word) \<noteq> 2047"
proof
  assume e: "e < 2047" and eq: "(of_nat e :: 11 word) = 2047"
  from e have "unat (of_nat e :: 11 word) = e" by (simp add: unat_of_nat)
  with eq e show False by simp
qed

lemma encode_not_nan: "\<not> is_nan (encode s e m)"
  by (simp add: encode_def is_nan_def of_nat_exp_eq_2047)

lemma round_units_not_nan: "\<not> is_nan (round_units s n d)"
  by (simp add: round_units_def Let_def encode_not_nan)

lemma finite_not_nan: "is_finite x \<Longrightarrow> \<not> is_nan x"
  by (simp add: is_finite_def is_nan_def)

lemma finite_not_inf: "is_finite x \<Longrightarrow> \<not> is_inf x"
  by (simp add: is_finite_def is_inf_def)

lemma is_inf_eqI: "is_inf x \<Longrightarrow> is_inf y \<Longrightarrow> sign_bit x = sign_bit y \<Longrightarrow> x = y"
  by (cases x; cases y) (simp add: is_inf_def)

lemma fadd_commute: "fadd x y = fadd y x"
proof -
  consider "is_nan x \<or> is_nan y" | "\<not> is_nan x" "\<not> is_nan y" "is_inf x" "is_inf y"
    | "\<not> is_nan x" "\<not> is_nan y" "\<not> (is_inf x \<and> is_inf y)"
    by blast
  then show ?thesis
  proof cases
    case 1
    then show ?thesis by (auto simp: fadd_def)
  next
    case 2
    then show ?thesis by (auto simp: fadd_def intro: is_inf_eqI)
  next
    case 3
    then show ?thesis by (auto simp: fadd_def Let_def add.commute conj_commute)
  qed
qed

lemma fmul_commute: "fmul x y = fmul y x"
proof -
  have s: "(sign_bit x \<noteq> sign_bit y) = (sign_bit y \<noteq> sign_bit x)" by auto
  have m: "magnitude x * magnitude y = magnitude y * magnitude x" by (simp add: mult.commute)
  have d: "(is_nan x \<or> is_nan y) = (is_nan y \<or> is_nan x)"
    "(is_inf x \<or> is_inf y) = (is_inf y \<or> is_inf x)"
    "(is_zero x \<or> is_zero y) = (is_zero y \<or> is_zero x)" by auto
  show ?thesis unfolding fmul_def Let_def s m d ..
qed

lemma fadd_finite:
  assumes "is_finite x" "is_finite y"
  shows "fadd x y =
    (if signed_units x + signed_units y = 0 then Double (sign_bit x \<and> sign_bit y) 0 0
     else round_units (signed_units x + signed_units y < 0)
            (nat \<bar>signed_units x + signed_units y\<bar>) 1)"
  using assms by (simp add: fadd_def finite_not_nan finite_not_inf Let_def)

lemma fmul_finite:
  assumes "is_finite x" "is_finite y"
  shows "fmul x y = round_units (sign_bit x \<noteq> sign_bit y) (magnitude x * magnitude y) (2 ^ 1074)"
  using assms by (simp add: fmul_def finite_not_nan finite_not_inf Let_def)

lemma zero_not_nan [simp]: "\<not> is_nan (Double s 0 0)"
  by (simp add: is_nan_def)

lemma fadd_finite_not_nan: "is_finite x \<Longrightarrow> is_finite y \<Longrightarrow> \<not> is_nan (fadd x y)"
  by (simp add: fadd_finite round_units_not_nan)

lemma fmul_finite_not_nan: "is_finite x \<Longrightarrow> is_finite y \<Longrightarrow> \<not> is_nan (fmul x y)"
  by (simp add: fmul_finite round_units_not_nan)

lemma round_half_even_scale:
  assumes "0 < c"
  shows "round_half_even (n * c) (d * c) = round_half_even n d"
proof -
  have "(n * c) mod (d * c) = (n mod d) * c" by (simp add: mult_mod_left)
  moreover have "(n * c) div (d * c) = n div d" using assms by simp
  ultimately show ?thesis using assms by (simp add: round_half_even_def Let_def)
qed

lemma round_units_scale:
  assumes "0 < c"
  shows "round_units s (n * c) (d * c) = round_units s n d"
proof -
  have q: "(n * c) div (d * c) = n div d" using assms by simp
  have "round_half_even (n * c) (d * c * 2 ^ k) = round_half_even n (d * 2 ^ k)" for k
    using round_half_even_scale [OF assms, of n "d * 2 ^ k"] by (simp add: mult_ac)
  with q show ?thesis by (simp add: round_units_def)
qed

lemma dbl_one_facts [simp]:
  "magnitude dbl_one = 2 ^ 1074" "\<not> sign_bit dbl_one" "is_finite dbl_one" "\<not> is_nan dbl_one"
  "\<not> is_inf dbl_one" "\<not> is_zero dbl_one"
  by (simp_all add: dbl_one_def magnitude_def is_finite_def is_nan_def is_inf_def is_zero_def)

lemma fadd_pos_zero:
  assumes "is_finite x"
  shows "fadd x pos_zero = (if is_zero x then pos_zero else x)"
proof (cases "is_zero x")
  case True
  then have "signed_units x = 0" by (simp add: signed_units_eq_0_iff)
  with assms True show ?thesis
    by (simp add: fadd_finite) (simp add: pos_zero_def)
next
  case False
  then have nz: "signed_units x \<noteq> 0" by (simp add: signed_units_eq_0_iff)
  have "round_units (signed_units x < 0) (nat \<bar>signed_units x\<bar>) 1 = x"
    using round_units_magnitude [OF assms] nz by (auto simp: signed_units_def)
  with assms False nz show ?thesis
    by (simp add: fadd_finite)
qed

lemma fmul_one:
  assumes "is_finite x"
  shows "fmul x dbl_one = x"
proof -
  have "round_units (sign_bit x) (magnitude x * 2 ^ 1074) (1 * 2 ^ 1074) = x"
    using round_units_scale [of "2 ^ 1074" "sign_bit x" "magnitude x" 1]
      round_units_magnitude [OF assms] by simp
  with assms show ?thesis
    by (simp add: fmul_finite)
qed

subsection \<open>Order and equality\<close>

lemma is_finite_iff: "is_finite x \<longleftrightarrow> \<not> is_nan x \<and> \<not> is_inf x"
  by (auto simp: is_finite_def is_nan_def is_inf_def)

lemma magnitude_inf: "is_inf x \<Longrightarrow> magnitude x = 2 ^ 2098"
  by (simp add: is_inf_def magnitude_def)

lemma magnitude_finite_less:
  assumes "is_finite x"
  shows "magnitude x < 2 ^ 2098"
proof (cases "biased_exp x = 0")
  case True
  have "unat (fraction x) < 2 ^ 52" by (rule unat_fraction_less)
  also have "(2::nat) ^ 52 < 2 ^ 2098" by simp
  finally show ?thesis using True by (simp add: magnitude_def)
next
  case False
  let ?e = "unat (biased_exp x)"
  from assms have "?e < 2047" by (simp add: is_finite_def unat_exp_less)
  then have "?e - 1 \<le> 2045" by simp
  then have p: "(2::nat) ^ (?e - 1) \<le> 2 ^ 2045" by (intro power_increasing) simp_all
  have "2 ^ 52 + unat (fraction x) < 2 ^ 53"
    using unat_fraction_less [of "fraction x"] by simp
  then have "(2 ^ 52 + unat (fraction x)) * 2 ^ (?e - 1) < 2 ^ 53 * 2 ^ (?e - 1)"
    by simp
  also have "\<dots> \<le> 2 ^ 53 * 2 ^ 2045" using p by simp
  also have "\<dots> = (2::nat) ^ 2098" by (simp flip: power_add)
  finally show ?thesis using False by (simp add: magnitude_def)
qed

text \<open>Two doubles that are not NaN and have the same sign and magnitude are the same.\<close>

lemma double_eqI:
  assumes "\<not> is_nan x" "\<not> is_nan y" "sign_bit x = sign_bit y" "magnitude x = magnitude y"
  shows "x = y"
proof (cases "is_inf x")
  case True
  then have "magnitude y = 2 ^ 2098" using assms(4) by (simp add: magnitude_inf)
  then have "\<not> is_finite y" using magnitude_finite_less [of y] by auto
  with assms(2) have "is_inf y" by (simp add: is_finite_iff)
  with True assms(3) show ?thesis by (auto intro: is_inf_eqI)
next
  case False
  with assms(1) have fx: "is_finite x" by (simp add: is_finite_iff)
  then have "magnitude y < 2 ^ 2098" using magnitude_finite_less [of x] assms(4) by simp
  then have "\<not> is_inf y" using magnitude_inf [of y] by auto
  with assms(2) have fy: "is_finite y" by (simp add: is_finite_iff)
  from round_units_magnitude [OF fx] round_units_magnitude [OF fy] assms(3,4)
  show ?thesis by simp
qed

lemma signed_units_neg_iff: "signed_units x < 0 \<longleftrightarrow> sign_bit x \<and> \<not> is_zero x"
  using magnitude_eq_0_iff [of x] by (auto simp: signed_units_def)

lemma signed_units_pos_iff: "0 < signed_units x \<longleftrightarrow> \<not> sign_bit x \<and> \<not> is_zero x"
  using magnitude_eq_0_iff [of x] by (auto simp: signed_units_def)

lemma float_lt_pos_zero_iff:
  "float_lt x pos_zero \<longleftrightarrow> \<not> is_nan x \<and> sign_bit x \<and> \<not> is_zero x"
  by (simp add: float_lt_def signed_units_neg_iff)

lemma pos_zero_float_lt_iff:
  "float_lt pos_zero x \<longleftrightarrow> \<not> is_nan x \<and> \<not> sign_bit x \<and> \<not> is_zero x"
  by (simp add: float_lt_def signed_units_pos_iff)

lemma float_eq_dbl_one_iff: "float_eq x dbl_one \<longleftrightarrow> x = dbl_one"
proof
  assume a: "float_eq x dbl_one"
  then have n: "\<not> is_nan x" and s: "signed_units x = 2 ^ 1074"
    by (simp_all add: float_eq_def signed_units_def)
  from s have "\<not> sign_bit x" "magnitude x = magnitude dbl_one"
    by (auto simp: signed_units_def split: if_splits)
  with n show "x = dbl_one" by (intro double_eqI) simp_all
next
  assume "x = dbl_one"
  then show "float_eq x dbl_one" by (simp add: float_eq_def)
qed

lemma c_floor_dbl_one: "c_floor dbl_one = dbl_one"
proof -
  have "round_units (sign_bit dbl_one) (magnitude dbl_one) 1 = dbl_one"
    by (rule round_units_magnitude) simp
  then show ?thesis by (simp add: c_floor_def signed_units_def)
qed

lemma dbl_two_facts [simp]:
  "magnitude dbl_two = 2 ^ 1075" "\<not> is_nan dbl_two" "\<not> is_inf dbl_two" "\<not> is_zero dbl_two"
  by (simp_all add: dbl_two_def magnitude_def is_nan_def is_inf_def is_zero_def)

lemma fabs_dbl_one [simp]: "fabs dbl_one = dbl_one"
  by (simp add: fabs_def dbl_one_def)


section \<open>Correct rounding of the operations\<close>

subsection \<open>Nearest integers\<close>

lemma round_half_even_cases:
  "round_half_even n d = n div d \<and> 2 * (n mod d) \<le> d \<or>
   round_half_even n d = n div d + 1 \<and> d \<le> 2 * (n mod d)"
  by (auto simp: round_half_even_def Let_def)

text \<open>
  The product \<open>round_half_even n d * d\<close> is within \<open>d / 2\<close> of \<open>n\<close>, and no multiple of \<open>d\<close> is
  nearer.
\<close>

lemma round_half_even_int:
  assumes "0 < d"
  obtains q r :: int where "int n = q * int d + r" "0 \<le> r" "r < int d"
    "int (round_half_even n d) * int d = q * int d \<and> 2 * r \<le> int d \<or>
     int (round_half_even n d) * int d = q * int d + int d \<and> int d \<le> 2 * r"
    "\<And>j. int j * int d \<le> q * int d \<or> q * int d + int d \<le> int j * int d"
proof
  let ?q = "n div d" and ?r = "n mod d"
  show "int n = int ?q * int d + int ?r"
    by (metis div_mult_mod_eq of_nat_add of_nat_mult)
  show "0 \<le> int ?r" by simp
  show "int ?r < int d" using assms by simp
  show "int (round_half_even n d) * int d = int ?q * int d \<and> 2 * int ?r \<le> int d \<or>
     int (round_half_even n d) * int d = int ?q * int d + int d \<and> int d \<le> 2 * int ?r"
  proof -
    from round_half_even_cases [of n d]
    consider "round_half_even n d = ?q" "2 * ?r \<le> d"
      | "round_half_even n d = ?q + 1" "d \<le> 2 * ?r" by blast
    then show ?thesis
    proof cases
      case 1
      from 1(2) have "2 * int ?r \<le> int d" by linarith
      with 1(1) show ?thesis by simp
    next
      case 2
      from 2(2) have "int d \<le> 2 * int ?r" by linarith
      moreover have "int (?q + 1) * int d = int ?q * int d + int d"
        by (simp add: algebra_simps)
      ultimately show ?thesis using 2(1) by simp
    qed
  qed
  show "int j * int d \<le> int ?q * int d \<or> int ?q * int d + int d \<le> int j * int d" for j
  proof (cases "j \<le> ?q")
    case True
    then have "j * d \<le> ?q * d" by (rule mult_le_mono1)
    then have "int (j * d) \<le> int (?q * d)" by (simp only: of_nat_le_iff)
    then show ?thesis by simp
  next
    case False
    then have "?q + 1 \<le> j" by simp
    then have "(?q + 1) * d \<le> j * d" by (rule mult_le_mono1)
    then have "int ((?q + 1) * d) \<le> int (j * d)" by (simp only: of_nat_le_iff)
    then show ?thesis by (simp add: algebra_simps)
  qed
qed

lemma round_half_even_nearest:
  assumes "0 < d"
  shows "\<bar>int (round_half_even n d) * int d - int n\<bar> \<le> \<bar>int j * int d - int n\<bar>"
proof -
  obtain q r :: int where *: "int n = q * int d + r" "0 \<le> r" "r < int d"
    "int (round_half_even n d) * int d = q * int d \<and> 2 * r \<le> int d \<or>
     int (round_half_even n d) * int d = q * int d + int d \<and> int d \<le> 2 * r"
    and j: "\<And>j. int j * int d \<le> q * int d \<or> q * int d + int d \<le> int j * int d"
    using round_half_even_int [OF assms, of n] by blast
  from * j [of j] show ?thesis by linarith
qed

lemma round_half_even_half:
  assumes "0 < d"
  shows "2 * \<bar>int (round_half_even n d) * int d - int n\<bar> \<le> int d"
proof -
  obtain q r :: int where *: "int n = q * int d + r" "0 \<le> r" "r < int d"
    "int (round_half_even n d) * int d = q * int d \<and> 2 * r \<le> int d \<or>
     int (round_half_even n d) * int d = q * int d + int d \<and> int d \<le> 2 * r"
    using round_half_even_int [OF assms, of n] by blast
  from *(4) show ?thesis
  proof (elim disjE conjE)
    assume "int (round_half_even n d) * int d = q * int d" "2 * r \<le> int d"
    with *(1-3) show ?thesis by simp
  next
    assume "int (round_half_even n d) * int d = q * int d + int d" "int d \<le> 2 * r"
    with *(1-3) show ?thesis by simp
  qed
qed

lemma round_half_even_bounds:
  "n div d \<le> round_half_even n d" "round_half_even n d \<le> n div d + 1"
  using round_half_even_cases [of n d] by auto

subsection \<open>The result of rounding\<close>

lemma unat_of_nat_exp: "e < 2048 \<Longrightarrow> unat (of_nat e :: 11 word) = e"
  by (simp add: unat_of_nat)

lemma unat_of_nat_fraction: "m < 2 ^ 52 \<Longrightarrow> unat (of_nat m :: 52 word) = m"
  by (simp add: unat_of_nat)

lemma of_nat_exp_eq_0: "e < 2048 \<Longrightarrow> (of_nat e :: 11 word) = 0 \<longleftrightarrow> e = 0"
  using unat_of_nat_exp [of e] by (auto simp: unat_eq_0 [symmetric])

lemma is_finite_encode: "is_finite (encode s e m) \<longleftrightarrow> e < 2047"
  by (auto simp: encode_def is_finite_def of_nat_exp_eq_2047)

lemma sign_bit_encode [simp]: "sign_bit (encode s e m) = s"
  by (simp add: encode_def)

lemma sign_bit_round_units [simp]: "sign_bit (round_units s n d) = s"
  by (simp add: round_units_def Let_def)

lemma magnitude_encode:
  assumes "e < 2047" "m < 2 ^ 52"
  shows "magnitude (encode s e m) = (if e = 0 then m else (2 ^ 52 + m) * 2 ^ (e - 1))"
  using assms
  by (simp add: encode_def magnitude_def of_nat_exp_eq_0 unat_of_nat_exp unat_of_nat_fraction)

text \<open>
  With \<open>k\<close> the shift that \<open>round_units\<close> chooses, the quotient \<open>n / (d * 2 ^ k)\<close> lies below
  \<open>2\<^sup>5\<^sup>3\<close>, and at or above \<open>2\<^sup>5\<^sup>2\<close> when the shift is not zero.
\<close>

lemma round_units_shift:
  fixes n d :: nat
  assumes "0 < d"
  defines "k \<equiv> bit_length (n div d) - 53"
  shows "n < d * 2 ^ k * 2 ^ 53" and "0 < k \<Longrightarrow> 2 ^ 52 * (d * 2 ^ k) \<le> n"
proof -
  have "bit_length (n div d) \<le> 53 + k" by (simp add: k_def)
  then have "(2::nat) ^ bit_length (n div d) \<le> 2 ^ (53 + k)"
    by (intro power_increasing) simp_all
  with less_power_bit_length [of "n div d"] have "n div d < 2 ^ (53 + k)"
    by (rule less_le_trans)
  then have "n < 2 ^ (53 + k) * d" using assms(1) by (simp add: div_less_iff_less_mult)
  then show "n < d * 2 ^ k * 2 ^ 53" by (simp add: power_add mult_ac)
next
  assume "0 < k"
  then have bl: "bit_length (n div d) = 53 + k" by (simp add: k_def)
  then have "0 < n div d" by (cases "n div d = 0") simp_all
  then have "2 ^ (bit_length (n div d) - 1) \<le> n div d" by (rule power_bit_length_le)
  with bl have "2 ^ (52 + k) \<le> n div d" by simp
  then have "2 ^ (52 + k) * d \<le> n" using assms(1) by (simp add: less_eq_div_iff_mult_less_eq)
  then show "2 ^ 52 * (d * 2 ^ k) \<le> n" by (simp add: power_add mult_ac)
qed

lemma round_units_mantissa:
  fixes n d :: nat
  assumes "0 < d"
  defines "k \<equiv> bit_length (n div d) - 53"
  defines "m \<equiv> round_half_even n (d * 2 ^ k)"
  shows "m \<le> 2 ^ 53" and "0 < k \<Longrightarrow> 2 ^ 52 \<le> m"
proof -
  have D: "0 < d * 2 ^ k" using assms(1) by simp
  have "n < 2 ^ 53 * (d * 2 ^ k)"
    using round_units_shift(1) [OF assms(1), of n] by (simp add: k_def mult_ac)
  then have "n div (d * 2 ^ k) < 2 ^ 53" using D by (simp add: div_less_iff_less_mult)
  with round_half_even_bounds(2) [of n "d * 2 ^ k"] show "m \<le> 2 ^ 53"
    by (simp add: m_def)
next
  assume "0 < k"
  then have "2 ^ 52 * (d * 2 ^ k) \<le> n"
    using round_units_shift(2) [OF assms(1), of n] by (simp add: k_def)
  then have "2 ^ 52 \<le> n div (d * 2 ^ k)"
    using assms(1) by (simp add: less_eq_div_iff_mult_less_eq)
  with round_half_even_bounds(1) [of n "d * 2 ^ k"] show "2 ^ 52 \<le> m"
    by (simp add: m_def)
qed

lemma round_units_cases:
  fixes n d :: nat
  defines "k \<equiv> bit_length (n div d) - 53"
  defines "m \<equiv> round_half_even n (d * 2 ^ k)"
  shows "round_units s n d =
    (if m < 2 ^ 52 then encode s 0 m
     else if m = 2 ^ 53 then encode s (k + 2) 0
     else encode s (k + 1) (m - 2 ^ 52))"
  by (simp add: round_units_def k_def m_def Let_def)

lemma magnitude_round_units:
  assumes "0 < d" "is_finite (round_units s n d)"
  shows "magnitude (round_units s n d) =
    round_half_even n (d * 2 ^ (bit_length (n div d) - 53)) * 2 ^ (bit_length (n div d) - 53)"
proof -
  define k where "k = bit_length (n div d) - 53"
  define m where "m = round_half_even n (d * 2 ^ k)"
  have le: "m \<le> 2 ^ 53" and ge: "0 < k \<Longrightarrow> 2 ^ 52 \<le> m"
    using round_units_mantissa [OF assms(1), of n] by (simp_all add: k_def m_def)
  have r: "round_units s n d =
    (if m < 2 ^ 52 then encode s 0 m
     else if m = 2 ^ 53 then encode s (k + 2) 0
     else encode s (k + 1) (m - 2 ^ 52))"
    using round_units_cases [of s n d] by (simp add: k_def m_def)
  consider "m < 2 ^ 52" | "m = 2 ^ 53" | "2 ^ 52 \<le> m" "m < 2 ^ 53"
    using le by linarith
  then have "magnitude (round_units s n d) = m * 2 ^ k"
  proof cases
    case 1
    with ge have "k = 0" by (cases "k = 0") auto
    with 1 r show ?thesis by (simp add: magnitude_encode)
  next
    case 2
    with r assms(2) have "k + 2 < 2047" by (simp add: is_finite_encode)
    with 2 r show ?thesis by (simp add: magnitude_encode)
  next
    case 3
    with r assms(2) have "k + 1 < 2047" by (simp add: is_finite_encode)
    moreover from 3 have "m - 2 ^ 52 < 2 ^ 52" by simp
    ultimately show ?thesis using 3 r by (simp add: magnitude_encode)
  qed
  then show ?thesis by (simp add: k_def m_def)
qed

text \<open>Above \<open>2\<^sup>5\<^sup>2\<^sup>+\<^sup>k\<close> units, every finite double is a multiple of \<open>2\<^sup>k\<close> units.\<close>

lemma finite_grid:
  assumes "is_finite y"
  shows "magnitude y < 2 ^ (52 + k) \<or> 2 ^ k dvd magnitude y"
proof (cases "biased_exp y = 0")
  case True
  have "unat (fraction y) < 2 ^ 52" by (rule unat_fraction_less)
  also have "(2::nat) ^ 52 \<le> 2 ^ (52 + k)" by (intro power_increasing) simp_all
  finally show ?thesis using True by (simp add: magnitude_def)
next
  case False
  let ?e = "unat (biased_exp y)"
  let ?m = "2 ^ 52 + unat (fraction y)"
  have mag: "magnitude y = ?m * 2 ^ (?e - 1)" using False by (simp add: magnitude_def)
  from False have e: "0 < ?e" by (simp add: unat_gt_0)
  show ?thesis
  proof (cases "k \<le> ?e - 1")
    case True
    then have "(2::nat) ^ k dvd 2 ^ (?e - 1)" by (rule le_imp_power_dvd)
    then show ?thesis unfolding mag by simp
  next
    case False
    with e have "?e \<le> k" by simp
    then have p: "(2::nat) ^ (52 + ?e) \<le> 2 ^ (52 + k)" by (intro power_increasing) simp_all
    have "?m < 2 ^ 53" using unat_fraction_less [of "fraction y"] by simp
    then have "?m * 2 ^ (?e - 1) < 2 ^ 53 * 2 ^ (?e - 1)" by simp
    also have "\<dots> = 2 ^ (53 + (?e - 1))" by (simp only: power_add)
    also have "53 + (?e - 1) = 52 + ?e" using e by simp
    finally have "?m * 2 ^ (?e - 1) < 2 ^ (52 + ?e)" .
    from this p have "?m * 2 ^ (?e - 1) < 2 ^ (52 + k)" by (rule less_le_trans)
    then show ?thesis unfolding mag by (rule disjI1)
  qed
qed

text \<open>No finite double is nearer to \<open>n / d\<close> than the finite result of \<open>round_units\<close>.\<close>

lemma round_units_nearest:
  assumes "0 < d" "is_finite (round_units s n d)" "is_finite y"
  shows "\<bar>int (magnitude (round_units s n d)) * int d - int n\<bar>
           \<le> \<bar>int (magnitude y) * int d - int n\<bar>"
proof -
  define k where "k = bit_length (n div d) - 53"
  define D where "D = d * 2 ^ k"
  define m where "m = round_half_even n D"
  have D: "0 < D" using assms(1) by (simp add: D_def)
  have "magnitude (round_units s n d) = m * 2 ^ k"
    using magnitude_round_units [OF assms(1,2)] by (simp add: k_def D_def m_def)
  then have R: "int (magnitude (round_units s n d)) * int d = int m * int D"
    by (simp add: D_def mult_ac)
  have near: "\<bar>int m * int D - int n\<bar> \<le> \<bar>int j * int D - int n\<bar>" for j
    unfolding m_def by (rule round_half_even_nearest [OF D])
  from finite_grid [OF assms(3), of k]
  consider "2 ^ k dvd magnitude y" | "magnitude y < 2 ^ (52 + k)" "0 < k"
    by (cases "k = 0") auto
  then show ?thesis
  proof cases
    case 1
    then obtain j where "magnitude y = 2 ^ k * j" ..
    then have "int (magnitude y) * int d = int j * int D" by (simp add: D_def mult_ac)
    with near [of j] R show ?thesis by simp
  next
    case 2
    from 2(1) have "magnitude y * d \<le> 2 ^ (52 + k) * d" by simp
    also have "\<dots> = 2 ^ 52 * D" by (simp add: D_def power_add mult_ac)
    finally have "int (magnitude y * d) \<le> int (2 ^ 52 * D)" by (simp only: of_nat_le_iff)
    then have a: "int (magnitude y) * int d \<le> int (2 ^ 52) * int D" by simp
    have "2 ^ 52 * D \<le> n"
      using round_units_shift(2) [OF assms(1), of n] 2(2) by (simp add: k_def D_def)
    then have "int (2 ^ 52 * D) \<le> int n" by (simp only: of_nat_le_iff)
    then have b: "int (2 ^ 52) * int D \<le> int n" by simp
    from near [of "2 ^ 52"] a b R show ?thesis by linarith
  qed
qed

lemma twice_abs_le: "2 * \<bar>a\<bar> \<le> (x::int) \<Longrightarrow> 2 * a \<le> x"
  by linarith

lemma round_half_even_ge:
  assumes "0 < d" "(2 * c - 1) * d \<le> 2 * n" "even c"
  shows "c \<le> round_half_even n d"
proof (cases "c \<le> n div d")
  case True
  with round_half_even_bounds(1) [of n d] show ?thesis by simp
next
  case False
  let ?q = "n div d" and ?r = "n mod d"
  define Q where "Q = ?q * d"
  have "Q + ?r = n" unfolding Q_def by (rule div_mult_mod_eq)
  then have n2: "2 * n = 2 * Q + 2 * ?r" by linarith
  have r: "?r < d" using assms(1) by simp
  have c: "c = ?q + 1"
  proof (rule ccontr)
    assume "c \<noteq> ?q + 1"
    with False have "2 * ?q + 3 \<le> 2 * c - 1" by simp
    then have "(2 * ?q + 3) * d \<le> (2 * c - 1) * d" by (rule mult_le_mono1)
    moreover have "(2 * ?q + 3) * d = 2 * Q + 3 * d" by (simp add: Q_def algebra_simps)
    ultimately have "2 * Q + 3 * d \<le> 2 * n" using assms(2) by linarith
    with n2 r show False by linarith
  qed
  have "(2 * c - 1) * d = 2 * Q + d" unfolding c by (simp add: Q_def algebra_simps)
  with assms(2) n2 have "d \<le> 2 * ?r" by linarith
  moreover from c assms(3) have "odd ?q" by simp
  ultimately have "round_half_even n d = ?q + 1"
    by (simp add: round_half_even_def Let_def)
  with c show ?thesis by simp
qed

text \<open>
  The result is an infinity exactly when \<open>n / d\<close> reaches the overflow threshold, half a
  step beyond the largest finite double: \<open>2\<^sup>2\<^sup>0\<^sup>9\<^sup>8 - 2\<^sup>2\<^sup>0\<^sup>4\<^sup>4\<close> units.
\<close>

lemma round_units_finite_iff:
  assumes "0 < d"
  shows "is_finite (round_units s n d) \<longleftrightarrow> 2 * n < (2 ^ 2099 - 2 ^ 2045) * d"
proof -
  define k where "k = bit_length (n div d) - 53"
  define D where "D = d * 2 ^ k"
  define m where "m = round_half_even n D"
  have D: "0 < D" using assms by (simp add: D_def)
  have le: "m \<le> 2 ^ 53" and ge: "0 < k \<Longrightarrow> 2 ^ 52 \<le> m"
    using round_units_mantissa [OF assms, of n] by (simp_all add: k_def D_def m_def)
  have r: "round_units s n d =
    (if m < 2 ^ 52 then encode s 0 m
     else if m = 2 ^ 53 then encode s (k + 2) 0
     else encode s (k + 1) (m - 2 ^ 52))"
    using round_units_cases [of s n d] by (simp add: k_def D_def m_def)
  have fin: "is_finite (round_units s n d) \<longleftrightarrow> k < 2045 \<or> k = 2045 \<and> m \<noteq> 2 ^ 53"
    using ge le unfolding r by (cases "k = 0") (auto simp: is_finite_encode)
  have T: "(2 ^ 2099 - 2 ^ 2045 :: nat) = 18014398509481983 * 2 ^ 2045" by simp
  show ?thesis
  proof (cases "k < 2045")
    case True
    then have "bit_length (n div d) \<le> 2097" by (simp add: k_def)
    then have "(2::nat) ^ bit_length (n div d) \<le> 2 ^ 2097" by (intro power_increasing) simp_all
    with less_power_bit_length [of "n div d"] have "n div d < 2 ^ 2097" by (rule less_le_trans)
    then have "n < 2 ^ 2097 * d" using assms by (simp add: div_less_iff_less_mult)
    then have "2 * n < 2 * 2 ^ 2097 * d" by simp
    also have "\<dots> \<le> (2 ^ 2099 - 2 ^ 2045) * d" by (intro mult_le_mono1) simp
    finally show ?thesis using True fin by simp
  next
    case False
    show ?thesis
    proof (cases "k = 2045")
      case True
      have D': "D = d * 2 ^ 2045" using True by (simp add: D_def)
      have "m = 2 ^ 53 \<longleftrightarrow> (2 ^ 2099 - 2 ^ 2045) * d \<le> 2 * n"
      proof
        assume "m = 2 ^ 53"
        with round_half_even_half [OF D, of n]
        have "2 * \<bar>9007199254740992 * int D - int n\<bar> \<le> int D"
          by (simp add: m_def)
        then have "18014398509481983 * int D \<le> 2 * int n"
          using twice_abs_le [of "9007199254740992 * int D - int n" "int D"] by simp
        then have "int (18014398509481983 * D) \<le> int (2 * n)" by simp
        then have "18014398509481983 * D \<le> 2 * n" by (simp only: of_nat_le_iff)
        then show "(2 ^ 2099 - 2 ^ 2045) * d \<le> 2 * n" unfolding T D' by (simp add: mult_ac)
      next
        assume "(2 ^ 2099 - 2 ^ 2045) * d \<le> 2 * n"
        then have "18014398509481983 * D \<le> 2 * n" unfolding T D' by (simp add: mult_ac)
        then have "(2 * 2 ^ 53 - 1) * D \<le> 2 * n" by simp
        then have "2 ^ 53 \<le> m" unfolding m_def by (intro round_half_even_ge [OF D]) simp_all
        with le show "m = 2 ^ 53" by simp
      qed
      with True fin show ?thesis by auto
    next
      case False
      with \<open>\<not> k < 2045\<close> have k: "2046 \<le> k" by simp
      then have "0 < k" by simp
      then have "2 ^ 52 * (d * 2 ^ k) \<le> n"
        using round_units_shift(2) [OF assms, of n] by (simp add: k_def)
      moreover have "(2::nat) ^ 2046 \<le> 2 ^ k" using k by (intro power_increasing) simp_all
      then have "2 ^ 52 * (d * 2 ^ 2046) \<le> 2 ^ 52 * (d * 2 ^ k)" by simp
      ultimately have "2 ^ 52 * (d * 2 ^ 2046) \<le> n" by (rule order_trans [rotated])
      then have "2 ^ 2098 * d \<le> n" by (simp add: mult_ac)
      then have "2 * 2 ^ 2098 * d \<le> 2 * n" by simp
      moreover have "(2 ^ 2099 - 2 ^ 2045) * d \<le> 2 * 2 ^ 2098 * d" by (intro mult_le_mono1) simp
      ultimately have "(2 ^ 2099 - 2 ^ 2045) * d \<le> 2 * n" by (rule order_trans [rotated])
      with k fin show ?thesis by simp
    qed
  qed
qed

subsection \<open>Ties\<close>

text \<open>When another multiple of \<open>d\<close> is as near to \<open>n\<close>, the rounded quotient is even.\<close>

lemma round_half_even_tie:
  assumes "0 < d" "j \<noteq> round_half_even n d"
    and "\<bar>int j * int d - int n\<bar> = \<bar>int (round_half_even n d) * int d - int n\<bar>"
  shows "even (round_half_even n d)"
proof -
  let ?q = "n div d" and ?r = "n mod d"
  define Q where "Q = int ?q * int d"
  define J where "J = int j * int d"
  define M where "M = int (round_half_even n d) * int d"
  have n: "int n = Q + int ?r"
    unfolding Q_def by (metis div_mult_mod_eq of_nat_add of_nat_mult)
  have r: "int ?r < int d" using assms(1) by simp
  have eq: "\<bar>J - int n\<bar> = \<bar>M - int n\<bar>" using assms(3) by (simp add: J_def M_def)
  have J: "J \<le> Q - int d \<or> J = Q \<or> J = Q + int d \<or> Q + 2 * int d \<le> J"
  proof -
    consider "j + 1 \<le> ?q" | "j = ?q" | "j = ?q + 1" | "?q + 2 \<le> j" by linarith
    then show ?thesis
    proof cases
      case 1
      then have "(j + 1) * d \<le> ?q * d" by (rule mult_le_mono1)
      then have "int ((j + 1) * d) \<le> int (?q * d)" by (simp only: of_nat_le_iff)
      then show ?thesis by (simp add: J_def Q_def algebra_simps)
    next
      case 2
      then show ?thesis by (simp add: J_def Q_def)
    next
      case 3
      then show ?thesis by (simp add: J_def Q_def algebra_simps)
    next
      case 4
      then have "(?q + 2) * d \<le> j * d" by (rule mult_le_mono1)
      then have "int ((?q + 2) * d) \<le> int (j * d)" by (simp only: of_nat_le_iff)
      then show ?thesis by (simp add: J_def Q_def algebra_simps)
    qed
  qed
  consider "2 * ?r < d" | "d < 2 * ?r" | "2 * ?r = d" by linarith
  then show ?thesis
  proof cases
    case 1
    then have m: "round_half_even n d = ?q" by (simp add: round_half_even_def Let_def)
    then have "M = Q" by (simp add: M_def Q_def)
    moreover from m assms(2) have "J \<noteq> Q" by (auto simp: J_def Q_def assms(1))
    moreover from 1 have "2 * int ?r < int d" by linarith
    ultimately have False using eq n r J by linarith
    then show ?thesis ..
  next
    case 2
    then have m: "round_half_even n d = ?q + 1" by (simp add: round_half_even_def Let_def)
    then have "M = Q + int d" by (simp add: M_def Q_def algebra_simps)
    moreover from m assms(2) have "J \<noteq> Q + int d"
    proof -
      have "int j * int d \<noteq> int (?q + 1) * int d" using assms(1,2) m by simp
      then show ?thesis by (simp add: J_def Q_def algebra_simps)
    qed
    moreover from 2 have "int d < 2 * int ?r" by linarith
    ultimately have False using eq n r J by linarith
    then show ?thesis ..
  next
    case 3
    then show ?thesis by (simp add: round_half_even_def Let_def)
  qed
qed

lemma fraction_encode: "e < 2047 \<Longrightarrow> fraction (encode s e m) = of_nat m"
  by (simp add: encode_def)

lemma even_fraction_round_units:
  assumes "0 < d" "is_finite (round_units s n d)"
    and "even (round_half_even n (d * 2 ^ (bit_length (n div d) - 53)))"
  shows "even (unat (fraction (round_units s n d)))"
proof -
  define k where "k = bit_length (n div d) - 53"
  define m where "m = round_half_even n (d * 2 ^ k)"
  have le: "m \<le> 2 ^ 53" using round_units_mantissa(1) [OF assms(1), of n] by (simp add: k_def m_def)
  have ev: "even m" using assms(3) by (simp add: k_def m_def)
  have r: "round_units s n d =
    (if m < 2 ^ 52 then encode s 0 m
     else if m = 2 ^ 53 then encode s (k + 2) 0
     else encode s (k + 1) (m - 2 ^ 52))"
    using round_units_cases [of s n d] by (simp add: k_def m_def)
  consider "m < 2 ^ 52" | "m = 2 ^ 53" | "2 ^ 52 \<le> m" "m < 2 ^ 53"
    using le by linarith
  then show ?thesis
  proof cases
    case 1
    with r ev show ?thesis by (simp add: fraction_encode unat_of_nat_fraction)
  next
    case 2
    with r assms(2) have "k + 2 < 2047" by (simp add: is_finite_encode)
    with 2 r show ?thesis by (simp add: fraction_encode)
  next
    case 3
    define f where "f = m - 2 ^ 52"
    from 3 r have rf: "round_units s n d = encode s (k + 1) f" by (simp add: f_def)
    with assms(2) have "k + 1 < 2047" by (simp add: is_finite_encode)
    moreover from 3 have "f < 2 ^ 52" by (simp add: f_def)
    moreover from 3 ev have "even f" by (simp add: f_def)
    ultimately show ?thesis unfolding rf by (simp add: fraction_encode unat_of_nat_fraction)
  qed
qed

lemma round_units_tie_even:
  assumes "0 < d" "is_finite (round_units s n d)" "is_finite y"
    and "magnitude y \<noteq> magnitude (round_units s n d)"
    and "\<bar>int (magnitude y) * int d - int n\<bar>
           = \<bar>int (magnitude (round_units s n d)) * int d - int n\<bar>"
  shows "even (unat (fraction (round_units s n d)))"
proof -
  define k where "k = bit_length (n div d) - 53"
  define D where "D = d * 2 ^ k"
  define m where "m = round_half_even n D"
  have D: "0 < D" using assms(1) by (simp add: D_def)
  have mag: "magnitude (round_units s n d) = m * 2 ^ k"
    using magnitude_round_units [OF assms(1,2)] by (simp add: k_def D_def m_def)
  then have R: "int (magnitude (round_units s n d)) * int d = int m * int D"
    by (simp add: D_def mult_ac)
  from finite_grid [OF assms(3), of k]
  consider "2 ^ k dvd magnitude y" | "magnitude y < 2 ^ (52 + k)" "0 < k"
    by (cases "k = 0") auto
  then have "even m"
  proof cases
    case 1
    then obtain j where j: "magnitude y = 2 ^ k * j" ..
    then have Y: "int (magnitude y) * int d = int j * int D" by (simp add: D_def mult_ac)
    from j mag assms(4) have "j \<noteq> m" by auto
    moreover from assms(5) have "\<bar>int j * int D - int n\<bar> = \<bar>int m * int D - int n\<bar>"
      by (simp only: Y R)
    ultimately show ?thesis unfolding m_def by (intro round_half_even_tie [OF D, of j]) simp_all
  next
    case 2
    from 2(1) have "magnitude y * d < 2 ^ (52 + k) * d" using assms(1) by simp
    also have "\<dots> = 2 ^ 52 * D" by (simp add: D_def power_add mult_ac)
    finally have "int (magnitude y * d) < int (2 ^ 52 * D)" by (simp only: of_nat_less_iff)
    then have a: "int (magnitude y) * int d < int (2 ^ 52) * int D" by simp
    have "2 ^ 52 * D \<le> n"
      using round_units_shift(2) [OF assms(1), of n] 2(2) by (simp add: k_def D_def)
    then have "int (2 ^ 52 * D) \<le> int n" by (simp only: of_nat_le_iff)
    then have b: "int (2 ^ 52) * int D \<le> int n" by simp
    have "\<bar>int m * int D - int n\<bar> \<le> \<bar>int (2 ^ 52) * int D - int n\<bar>"
      unfolding m_def by (rule round_half_even_nearest [OF D])
    with a b assms(5) R have False by linarith
    then show ?thesis ..
  qed
  then show ?thesis
    using assms(1,2) by (intro even_fraction_round_units) (simp_all add: m_def D_def k_def)
qed

subsection \<open>Rounding and the rational value\<close>

lemma valof_signed:
  "valof x = (if sign_bit x then - 1 else 1) * of_nat (magnitude x) / 2 ^ 1074"
  by (simp add: valof_def signed_units_def)

lemma round_units_nearest_signed:
  assumes "0 < d" "is_finite (round_units s n d)" "is_finite y"
  shows "\<bar>int (magnitude (round_units s n d)) * int d - int n\<bar>
           \<le> int (magnitude y) * int d + int n"
proof -
  have "\<bar>int (magnitude (round_units s n d)) * int d - int n\<bar>
      \<le> \<bar>int (magnitude pos_zero) * int d - int n\<bar>"
    using assms(1,2) by (rule round_units_nearest) simp
  also have "\<dots> = int n" by (simp add: magnitude_eq_0_iff [THEN iffD2])
  also have "\<dots> \<le> int (magnitude y) * int d + int n" by simp
  finally show ?thesis .
qed

lemma abs_signed_div: "0 < (c::rat) \<Longrightarrow> \<bar>(if s then - 1 else 1) * a / c\<bar> = \<bar>a\<bar> / c"
  by (simp add: abs_mult)

lemma round_units_ieee:
  assumes "0 < d"
  shows "ieee_rounded ((if s then - 1 else 1) * (of_nat n / of_nat d) / 2 ^ 1074)
           (round_units s n d)"
proof -
  define U :: rat where "U = 2 ^ 1074"
  define x :: rat where "x = of_nat n / of_nat d"
  define q :: rat where "q = (if s then - 1 else 1) * x / U"
  define r where "r = round_units s n d"
  have U: "0 < U" by (simp add: U_def)
  have d: "0 < (of_nat d :: rat)" using assms by simp
  have x: "0 \<le> x" by (simp add: x_def)
  have absq: "\<bar>q\<bar> = x / U" using U x by (simp add: q_def abs_mult)
  have val: "valof z = (if sign_bit z then - 1 else 1) * of_nat (magnitude z) / U" for z
    by (simp add: valof_signed U_def)
  have nan: "\<not> is_nan r" by (simp add: r_def round_units_not_nan)
  have inf: "is_inf r \<longleftrightarrow> 2 ^ 1024 - 2 ^ 970 \<le> \<bar>q\<bar>"
  proof -
    have "is_inf r \<longleftrightarrow> \<not> is_finite r" using nan by (simp add: is_finite_iff)
    also have "\<dots> \<longleftrightarrow> (2 ^ 2099 - 2 ^ 2045) * d \<le> 2 * n"
      using round_units_finite_iff [OF assms, of s n] by (auto simp: r_def)
    also have "\<dots> \<longleftrightarrow> (of_nat ((2 ^ 2099 - 2 ^ 2045) * d) :: rat) \<le> of_nat (2 * n)"
      by (simp only: of_nat_le_iff)
    also have "\<dots> \<longleftrightarrow> (2 ^ 1024 - 2 ^ 970) * U * of_nat d \<le> (of_nat n :: rat)"
      by (simp add: U_def)
    also have "\<dots> \<longleftrightarrow> (2 ^ 1024 - 2 ^ 970) * U \<le> x"
      using d by (simp add: x_def pos_le_divide_eq)
    also have "\<dots> \<longleftrightarrow> 2 ^ 1024 - 2 ^ 970 \<le> x / U"
      using U by (simp add: pos_le_divide_eq)
    finally show ?thesis by (simp add: absq)
  qed
  have sgn: "(q < 0 \<longrightarrow> sign_bit r) \<and> (0 < q \<longrightarrow> \<not> sign_bit r)"
    using U x by (auto simp: q_def r_def zero_less_divide_iff divide_less_0_iff
        zero_less_mult_iff mult_less_0_iff split: if_splits)
  have dU: "0 < of_nat d * U" using d U by simp
  let ?R = "magnitude r"
  have L: "\<bar>valof r - q\<bar> = \<bar>of_int (int ?R * int d - int n)\<bar> / (of_nat d * U)"
  proof -
    have "valof r - q = (if s then - 1 else 1) * (of_nat ?R - x) / U"
      by (simp add: val q_def r_def algebra_simps diff_divide_distrib)
    also have "of_nat ?R - x = of_int (int ?R * int d - int n) / of_nat d"
      using d by (simp add: x_def field_simps)
    finally have "valof r - q = (if s then - 1 else 1) * of_int (int ?R * int d - int n)
        / (of_nat d * U)" by simp
    then show ?thesis by (simp only: abs_signed_div [OF dU])
  qed
  have Rr: "\<bar>valof y - q\<bar> =
      \<bar>of_int ((if sign_bit y = s then 1 else - 1) * int (magnitude y) * int d - int n)\<bar>
        / (of_nat d * U)" for y
  proof -
    let ?Y = "magnitude y"
    have "valof y - q = (if s then - 1 else 1) *
        ((if sign_bit y = s then 1 else - 1) * of_nat ?Y - x) / U"
      by (simp add: val q_def algebra_simps diff_divide_distrib)
    also have "(if sign_bit y = s then 1 else - 1) * of_nat ?Y - x =
        of_int ((if sign_bit y = s then 1 else - 1) * int ?Y * int d - int n) / of_nat d"
      using d by (simp add: x_def field_simps)
    finally have "valof y - q = (if s then - 1 else 1) *
        of_int ((if sign_bit y = s then 1 else - 1) * int ?Y * int d - int n)
        / (of_nat d * U)" by simp
    then show ?thesis by (simp only: abs_signed_div [OF dU])
  qed
  have near: "\<bar>valof r - q\<bar> \<le> \<bar>valof y - q\<bar>" if fr: "is_finite r" and fy: "is_finite y" for y
  proof -
    let ?Y = "magnitude y"
    have "\<bar>int ?R * int d - int n\<bar>
        \<le> \<bar>(if sign_bit y = s then 1 else - 1) * int ?Y * int d - int n\<bar>"
    proof (cases "sign_bit y = s")
      case True
      with round_units_nearest [OF assms, of s n y] fr fy show ?thesis by (simp add: r_def)
    next
      case False
      have "0 \<le> int ?Y * int d" by simp
      with False round_units_nearest_signed [OF assms, of s n y] fr fy show ?thesis
        by (simp add: r_def)
    qed
    then have "(of_int \<bar>int ?R * int d - int n\<bar> :: rat)
        \<le> of_int \<bar>(if sign_bit y = s then 1 else - 1) * int ?Y * int d - int n\<bar>"
      by (simp only: of_int_le_iff)
    then have "\<bar>of_int (int ?R * int d - int n) :: rat\<bar>
        \<le> \<bar>of_int ((if sign_bit y = s then 1 else - 1) * int ?Y * int d - int n)\<bar>"
      by (simp only: of_int_abs)
    with dU show ?thesis unfolding L Rr [of y] by (simp add: divide_right_mono)
  qed
  have tie: "even (unat (fraction r))"
    if fr: "is_finite r" and fy: "is_finite y"
      and eq: "\<bar>valof y - q\<bar> = \<bar>valof r - q\<bar>" and ne: "valof y \<noteq> valof r" for y
  proof -
    let ?Y = "magnitude y"
    define A where "A = int ?R * int d - int n"
    define B where "B = (if sign_bit y = s then 1 else - 1) * int ?Y * int d - int n"
    have "\<bar>of_int B :: rat\<bar> / (of_nat d * U) = \<bar>of_int A\<bar> / (of_nat d * U)"
      using eq unfolding L Rr [of y] A_def B_def .
    with d U assms have "\<bar>of_int B :: rat\<bar> = \<bar>of_int A\<bar>" by simp
    then have "(of_int \<bar>B\<bar> :: rat) = of_int \<bar>A\<bar>" by (simp only: of_int_abs)
    then have "\<bar>B\<bar> = \<bar>A\<bar>" by (simp only: of_int_eq_iff)
    then have E: "\<bar>(if sign_bit y = s then 1 else - 1) * int ?Y * int d - int n\<bar>
        = \<bar>int ?R * int d - int n\<bar>"
      by (simp only: A_def B_def)
    have sr: "sign_bit r = s" by (simp add: r_def)
    have "?Y \<noteq> ?R \<and> \<bar>int ?Y * int d - int n\<bar> = \<bar>int ?R * int d - int n\<bar>"
    proof (cases "sign_bit y = s")
      case True
      with ne sr have "?Y \<noteq> ?R" by (auto simp: val)
      with True E show ?thesis by simp
    next
      case False
      define P where "P = int ?Y * int d"
      have P0: "0 \<le> P" by (simp add: P_def)
      have "\<bar>int ?R * int d - int n\<bar> \<le> int (magnitude pos_zero) * int d + int n"
        using round_units_nearest_signed [OF assms, of s n pos_zero] fr by (simp add: r_def)
      then have le: "\<bar>int ?R * int d - int n\<bar> \<le> int n"
        by (simp add: magnitude_eq_0_iff [THEN iffD2])
      from False E have "\<bar>- P - int n\<bar> = \<bar>int ?R * int d - int n\<bar>" by (simp add: P_def)
      with P0 le have "P = 0" and n: "\<bar>int ?R * int d - int n\<bar> = int n" by linarith+
      then have Y: "?Y = 0" using assms by (simp add: P_def)
      then have "valof y = 0" by (simp add: val)
      with ne have "?R \<noteq> 0" by (auto simp: val)
      with Y n show ?thesis by simp
    qed
    with round_units_tie_even [OF assms, of s n y] fr fy show ?thesis by (simp add: r_def)
  qed
  from nan inf sgn near tie show ?thesis
    unfolding ieee_rounded_def q_def x_def U_def r_def by blast
qed

subsection \<open>The four operations\<close>

lemma ieee_rounded_zero: "ieee_rounded 0 (Double s 0 0)"
  by (simp add: ieee_rounded_def is_inf_def valof_signed magnitude_def)

lemma valof_eq: "valof x = of_int (signed_units x) / 2 ^ 1074"
  by (simp add: valof_def)

lemma fadd_ieee:
  assumes "is_finite x" "is_finite y"
  shows "ieee_rounded (valof x + valof y) (fadd x y)"
proof (cases "signed_units x + signed_units y = 0")
  case True
  then have "valof x + valof y = 0"
    by (simp add: valof_eq flip: add_divide_distrib of_int_add)
  with True assms show ?thesis by (simp add: fadd_finite ieee_rounded_zero)
next
  case False
  let ?s = "signed_units x + signed_units y"
  have "valof x + valof y = of_int ?s / 2 ^ 1074"
    by (simp add: valof_eq add_divide_distrib)
  also have "(of_int ?s :: rat) = (if ?s < 0 then - 1 else 1) * (of_nat (nat \<bar>?s\<bar>) / of_nat 1)"
    by simp
  finally have "valof x + valof y =
      (if ?s < 0 then - 1 else 1) * (of_nat (nat \<bar>?s\<bar>) / of_nat 1) / 2 ^ 1074" .
  moreover have "ieee_rounded
      ((if ?s < 0 then - 1 else 1) * (of_nat (nat \<bar>?s\<bar>) / of_nat 1) / 2 ^ 1074)
      (round_units (?s < 0) (nat \<bar>?s\<bar>) 1)"
    by (rule round_units_ieee) simp
  ultimately show ?thesis using False assms by (simp only: fadd_finite if_False)
qed

lemma fneg_facts [simp]:
  "is_finite (fneg x) = is_finite x" "signed_units (fneg x) = - signed_units x"
  by (simp_all add: fneg_def is_finite_def signed_units_def magnitude_def)

lemma valof_fneg: "valof (fneg x) = - valof x"
  by (simp add: valof_eq)

lemma fsub_ieee:
  assumes "is_finite x" "is_finite y"
  shows "ieee_rounded (valof x - valof y) (fsub x y)"
  using fadd_ieee [of x "fneg y"] assms by (simp add: fsub_def valof_fneg)

lemma signed_product:
  "(if a then - 1 else 1) * (if b then - 1 else 1) = (if a \<noteq> b then - 1 else (1::rat))"
  by simp

lemma fmul_ieee:
  assumes "is_finite x" "is_finite y"
  shows "ieee_rounded (valof x * valof y) (fmul x y)"
proof -
  let ?s = "sign_bit x \<noteq> sign_bit y"
  let ?n = "magnitude x * magnitude y"
  have "valof x * valof y =
      ((if sign_bit x then - 1 else 1) * (if sign_bit y then - 1 else 1)) *
      (of_nat ?n / 2 ^ 1074) / 2 ^ 1074"
    by (simp add: valof_signed)
  also have "\<dots> = (if ?s then - 1 else 1) * (of_nat ?n / of_nat (2 ^ 1074)) / 2 ^ 1074"
    by (simp only: signed_product of_nat_power of_nat_numeral)
  finally have "valof x * valof y =
      (if ?s then - 1 else 1) * (of_nat ?n / of_nat (2 ^ 1074)) / 2 ^ 1074" .
  moreover have "ieee_rounded
      ((if ?s then - 1 else 1) * (of_nat ?n / of_nat (2 ^ 1074)) / 2 ^ 1074)
      (round_units ?s ?n (2 ^ 1074))"
    by (rule round_units_ieee) simp
  ultimately show ?thesis using assms by (simp only: fmul_finite)
qed

lemma fdiv_finite:
  assumes "is_finite x" "is_finite y" "\<not> is_zero y"
  shows "fdiv x y =
    round_units (sign_bit x \<noteq> sign_bit y) (magnitude x * 2 ^ 1074) (magnitude y)"
  using assms by (simp add: fdiv_def finite_not_nan finite_not_inf Let_def)


section \<open>The cases of the power operator\<close>

lemma float_eq_c_floor_zero:
  assumes "is_zero e"
  shows "float_eq e (c_floor e)"
proof -
  from assms have s: "signed_units e = 0" by (simp add: signed_units_eq_0_iff)
  with assms have c: "c_floor e = Double (sign_bit e) 0 0"
    by (simp add: c_floor_def is_zero_finite)
  have "signed_units (Double (sign_bit e) 0 0) = 0"
    by (simp add: signed_units_def magnitude_def)
  with assms s show ?thesis
    unfolding c by (simp add: float_eq_def is_zero_not_nan)
qed


lemma fneg_negative: "sign_bit x \<Longrightarrow> fneg x = fabs x"
  by (simp add: fneg_def fabs_def)

lemma fabs_nonnegative: "\<not> sign_bit x \<Longrightarrow> fabs x = x"
  by (cases x) (simp add: fabs_def)


lemma fabs_facts [simp]:
  "is_nan (fabs x) = is_nan x" "is_inf (fabs x) = is_inf x" "is_zero (fabs x) = is_zero x"
  "is_finite (fabs x) = is_finite x" "magnitude (fabs x) = magnitude x" "\<not> sign_bit (fabs x)"
  by (simp_all add: fabs_def is_nan_def is_inf_def is_zero_def is_finite_def magnitude_def)

text \<open>
  Past the special cases, \<open>py_pow\<close> is one of three things: the complex power, a power
  of \<open>\<plusminus>1\<close>, or the C library's \<open>pow\<close> on the absolute value of the base.
\<close>

lemma py_pow_finite:
  assumes "is_finite b" "is_finite e" "\<not> is_zero b" "\<not> is_zero e"
  shows "py_pow P b e =
    (if sign_bit b \<and> \<not> float_eq e (c_floor e) then
       (case complex_pow P b e of Inl err \<Rightarrow> Inl err | Inr (re, im) \<Rightarrow> Inr (PyComplex re im))
     else if fabs b = dbl_one then
       Inr (PyFloat (if sign_bit b \<and> double_is_odd_integer e then fneg dbl_one else dbl_one))
     else
       (case libm_pow P (fabs b) e of
          (ix, en) \<Rightarrow>
            (case adjust_erange ix en of
               E_OK \<Rightarrow> Inr (PyFloat (if sign_bit b \<and> double_is_odd_integer e then fneg ix else ix))
             | E_RANGE \<Rightarrow> Inl OverflowError
             | E_OTHER n \<Rightarrow> Inl (ValueError (strerror P (E_OTHER n))))))"
proof -
  from assms have n: "\<not> is_nan b" "\<not> is_inf b" "\<not> is_nan e" "\<not> is_inf e"
    by (simp_all add: is_finite_iff)
  with assms have lt: "float_lt b pos_zero \<longleftrightarrow> sign_bit b"
    by (simp add: float_lt_pos_zero_iff)
  have av: "(if sign_bit b then fneg b else b) = fabs b"
    by (simp add: fneg_negative fabs_nonnegative)
  show ?thesis
    unfolding py_pow_def
    using assms n by (simp add: float_eq_pos_zero_iff lt av Let_def float_eq_dbl_one_iff)
qed



lemma dbl_one_exponent [simp]:
  "float_eq dbl_one (c_floor dbl_one)" "\<not> float_lt dbl_one pos_zero" "float_lt pos_zero dbl_one"
  by (simp_all add: c_floor_dbl_one float_eq_dbl_one_iff float_lt_pos_zero_iff
        pos_zero_float_lt_iff)



subsection \<open>The power function of IEEE 754\<close>

text \<open>
  On quotients of natural numbers, \<open>round_real_units\<close> is \<open>round_units\<close>, so the results
  about rounding to nearest apply to it.
\<close>

lemma round_half_even_real_of_nat:
  assumes "0 < d"
  shows "round_half_even_real (real n / real d) = round_half_even n d"
proof -
  have q: "nat \<lfloor>real n / real d\<rfloor> = n div d"
    by (simp add: floor_divide_of_nat_eq)
  have "real n = real (n div d) * real d + real (n mod d)"
    by (metis div_mult_mod_eq of_nat_add of_nat_mult)
  then have r: "real n / real d - real (n div d) = real (n mod d) / real d"
    using assms by (simp add: field_simps)
  have a: "2 * (real (n mod d) / real d) < 1 \<longleftrightarrow> 2 * (n mod d) < d"
    using assms by (simp add: field_simps) (metis of_nat_less_iff of_nat_mult of_nat_numeral)
  have b: "1 < 2 * (real (n mod d) / real d) \<longleftrightarrow> d < 2 * (n mod d)"
    using assms by (simp add: field_simps) (metis of_nat_less_iff of_nat_mult of_nat_numeral)
  show ?thesis
    unfolding round_half_even_real_def round_half_even_def Let_def q r a b ..
qed

lemma round_real_units_quotient:
  assumes "0 < d"
  shows "round_real_units s (real n / real d) = round_units s n d"
proof -
  have f: "nat \<lfloor>real n / real d\<rfloor> = n div d"
    by (simp add: floor_divide_of_nat_eq)
  have p: "real n / real d / 2 ^ k = real n / real (d * 2 ^ k)" for k by simp
  have h: "round_half_even_real (real n / real (d * 2 ^ k)) = round_half_even n (d * 2 ^ k)" for k
    using assms by (intro round_half_even_real_of_nat) simp
  show ?thesis
    unfolding round_real_units_def round_units_def f p h ..
qed

lemma round_real_units_of_nat: "round_real_units s (real n) = round_units s n 1"
  using round_real_units_quotient [of 1 s n] by simp



lemma ieee_pow_two_two: "ieee_pow dbl_two dbl_two = (Double False 1025 0, E_OK)"
proof -
  define u :: nat where "u = 4 * 2 ^ 1074"
  have v: "valof dbl_two = 2"
    by (simp add: valof_def signed_units_def magnitude_def dbl_two_def)
  have "(2::nat) ^ 1076 = 2 ^ (2 + 1074)" by simp
  also have "\<dots> = 2 ^ 2 * 2 ^ 1074" by (rule power_add)
  finally have e: "(2::nat) ^ 1076 = u" by (simp add: u_def)
  have "magnitude (Double False 1025 0) = 2 ^ 1076"
    by (simp add: magnitude_def)
  with e have m: "magnitude (Double False 1025 0) = u" by (simp only:)
  have p: "(2::real) powr 2 = 4" by simp
  have pw: "(of_rat (valof dbl_two) :: real) powr of_rat (valof dbl_two) * 2 ^ 1074 = real u"
    unfolding v of_rat_numeral_eq p u_def
    by (simp only: of_nat_mult of_nat_power of_nat_numeral)
  have "is_finite (Double False 1025 0)" by (simp add: is_finite_def)
  then have ru: "round_units False u 1 = Double False 1025 0"
    using round_units_magnitude [of "Double False 1025 0"] unfolding m by simp
  show ?thesis
    unfolding ieee_pow_def Let_def pw round_real_units_of_nat ru
    by (simp add: is_inf_def)
qed


subsection \<open>The examples\<close>

lemma dbl_neg_eight_facts:
  "is_finite dbl_neg_eight" "float_lt dbl_neg_eight pos_zero"
  by (simp_all add: float_lt_pos_zero_iff)
     (simp_all add: dbl_neg_eight_def is_finite_def is_nan_def is_zero_def)

lemma dbl_half_facts:
  "is_finite dbl_half" "\<not> float_eq dbl_half (c_floor dbl_half)"
proof -
  show "is_finite dbl_half" by (simp add: dbl_half_def is_finite_def)
  have "signed_units dbl_half = 2 ^ 1073"
    by (simp add: signed_units_def magnitude_def dbl_half_def)
  then have "c_floor dbl_half = pos_zero"
    by (simp add: c_floor_def is_finite_def pos_zero_def) (simp add: dbl_half_def)
  then show "\<not> float_eq dbl_half (c_floor dbl_half)"
    by (simp add: float_eq_pos_zero_iff) (simp add: is_zero_def dbl_half_def)
qed


lemma dbl_two_more_facts:
  "is_finite dbl_two" "\<not> float_lt dbl_two pos_zero" "fabs dbl_two = dbl_two"
  "dbl_two \<noteq> dbl_one"
  by (simp_all add: float_lt_pos_zero_iff)
     (simp_all add: dbl_two_def dbl_one_def is_finite_def fabs_def)



section \<open>Exact results\<close>

text \<open>
  When the exact result is itself a double, the operation returns it.
\<close>

lemma round_units_exact:
  assumes "is_finite z" "0 < c"
  shows "round_units (sign_bit z) (magnitude z * c) c = z"
  using round_units_scale [OF assms(2), of "sign_bit z" "magnitude z" 1]
    round_units_magnitude [OF assms(1)] by simp

lemma fadd_exact:
  assumes "is_finite x" "is_finite y" "is_finite z" "\<not> is_zero z"
    and "signed_units x + signed_units y = signed_units z"
  shows "fadd x y = z"
proof -
  from assms(4) have nz: "signed_units z \<noteq> 0" by (simp add: signed_units_eq_0_iff)
  have "round_units (signed_units z < 0) (nat \<bar>signed_units z\<bar>) 1 = z"
    using round_units_magnitude [OF assms(3)] nz by (auto simp: signed_units_def)
  with assms nz show ?thesis by (simp add: fadd_finite)
qed

lemma fmul_exact:
  assumes "is_finite x" "is_finite y" "is_finite z"
    and "sign_bit z = (sign_bit x \<noteq> sign_bit y)"
    and "magnitude x * magnitude y = magnitude z * 2 ^ 1074"
  shows "fmul x y = z"
  using assms round_units_exact [OF assms(3), of "2 ^ 1074"] by (simp add: fmul_finite)

lemma fdiv_exact:
  assumes "is_finite x" "is_finite y" "is_finite z" "\<not> is_zero y"
    and "sign_bit z = (sign_bit x \<noteq> sign_bit y)"
    and "magnitude x * 2 ^ 1074 = magnitude z * magnitude y"
  shows "fdiv x y = z"
proof -
  from assms(4) have "0 < magnitude y" by (simp add: magnitude_eq_0_iff [symmetric])
  with assms round_units_exact [OF assms(3), of "magnitude y"] show ?thesis
    by (simp add: fdiv_finite)
qed

text \<open>
  An integer below \<open>2\<^sup>5\<^sup>3\<close> in absolute value converts to the double of exactly its value.
\<close>

lemma float_of_int_exact:
  assumes "\<bar>i\<bar> < 2 ^ 53"
  shows "is_finite (float_of_int i)" and "signed_units (float_of_int i) = i * 2 ^ 1074"
proof -
  define a where "a = nat \<bar>i\<bar>"
  define n where "n = a * 2 ^ 1074"
  define k where "k = bit_length (n div 1) - 53"
  have a: "a < 2 ^ 53" using assms by (simp add: a_def)
  have r: "float_of_int i = round_units (i < 0) n 1" by (simp add: float_of_int_def a_def n_def)
  have "2 * n < 2 * (2 ^ 53 * 2 ^ 1074)" using a by (simp add: n_def)
  also have "\<dots> \<le> (2 ^ 2099 - 2 ^ 2045) * 1" by simp
  finally show fin: "is_finite (float_of_int i)" unfolding r by (simp add: round_units_finite_iff)
  have "magnitude (float_of_int i) = n"
  proof (cases "a = 0")
    case True
    then show ?thesis unfolding r
      by (simp add: n_def round_units_def round_half_even_def encode_def magnitude_def)
  next
    case False
    then have bl: "bit_length n = bit_length a + 1074"
      unfolding n_def by (intro bit_length_mult_power) simp
    from False have "0 < bit_length a" using less_power_bit_length [of a] by (cases "bit_length a = 0") auto
    moreover have "bit_length a \<le> 53" using a by (rule bit_length_le)
    ultimately have k: "k + (53 - bit_length a) = 1074" "k = bit_length a + 1021"
      by (simp_all add: k_def bl)
    have "n = a * 2 ^ (53 - bit_length a) * 2 ^ k"
      unfolding n_def by (simp add: mult.assoc flip: power_add k(1) add.commute)
    then have "round_half_even n (1 * 2 ^ k) * 2 ^ k = n"
      using round_half_even_exact [of "2 ^ k" "a * 2 ^ (53 - bit_length a)"] by simp
    then show ?thesis
      using magnitude_round_units [of 1 "i < 0" n] fin unfolding r k_def by simp
  qed
  then have m: "int (magnitude (float_of_int i)) = \<bar>i\<bar> * 2 ^ 1074"
    by (simp add: n_def a_def)
  have "sign_bit (float_of_int i) = (i < 0)" by (simp add: float_of_int_def)
  with m show "signed_units (float_of_int i) = i * 2 ^ 1074"
    by (cases "i < 0") (simp_all add: signed_units_def)
qed

lemma float_of_int_zero_iff:
  assumes "\<bar>i\<bar> < 2 ^ 53"
  shows "is_zero (float_of_int i) \<longleftrightarrow> i = 0"
  using float_of_int_exact(2) [OF assms] by (simp add: signed_units_eq_0_iff [symmetric])

lemma sign_bit_float_of_int [simp]: "sign_bit (float_of_int i) = (i < 0)"
  by (simp add: float_of_int_def)

lemma magnitude_float_of_int:
  assumes "\<bar>i\<bar> < 2 ^ 53"
  shows "magnitude (float_of_int i) = nat \<bar>i\<bar> * 2 ^ 1074"
proof -
  have "int (magnitude (float_of_int i)) = \<bar>i\<bar> * 2 ^ 1074"
    using float_of_int_exact(2) [OF assms] by (auto simp: signed_units_def split: if_splits)
  then have "magnitude (float_of_int i) = nat (\<bar>i\<bar> * 2 ^ 1074)" by linarith
  then show ?thesis by (simp add: nat_mult_distrib)
qed

text \<open>
  On integers whose results stay below \<open>2\<^sup>5\<^sup>3\<close>, the tools compute as the integers do.
\<close>

lemma add_integers:
  assumes "\<bar>i\<bar> < 2 ^ 53" "\<bar>j\<bar> < 2 ^ 53" "\<bar>i + j\<bar> < 2 ^ 53" "i + j \<noteq> 0"
  shows "add (float_of_int i) (float_of_int j) = Inr (float_of_int (i + j))"
proof -
  have "fadd (float_of_int i) (float_of_int j) = float_of_int (i + j)"
    using assms
    by (intro fadd_exact) (simp_all add: float_of_int_exact float_of_int_zero_iff algebra_simps)
  then show ?thesis by (simp add: add_def py_add_def)
qed

lemma subtract_integers:
  assumes "\<bar>i\<bar> < 2 ^ 53" "\<bar>j\<bar> < 2 ^ 53" "\<bar>i - j\<bar> < 2 ^ 53" "i \<noteq> j"
  shows "subtract (float_of_int i) (float_of_int j) = Inr (float_of_int (i - j))"
proof -
  have "fadd (float_of_int i) (fneg (float_of_int j)) = float_of_int (i - j)"
    using assms
    by (intro fadd_exact) (simp_all add: float_of_int_exact float_of_int_zero_iff algebra_simps)
  then show ?thesis by (simp add: subtract_def py_sub_def fsub_def)
qed

lemma multiply_integers:
  assumes "\<bar>i\<bar> < 2 ^ 53" "\<bar>j\<bar> < 2 ^ 53" "\<bar>i * j\<bar> < 2 ^ 53" "i \<noteq> 0" "j \<noteq> 0"
  shows "multiply (float_of_int i) (float_of_int j) = Inr (float_of_int (i * j))"
proof -
  have "fmul (float_of_int i) (float_of_int j) = float_of_int (i * j)"
    using assms
    by (intro fmul_exact)
       (auto simp: float_of_int_exact magnitude_float_of_int abs_mult nat_mult_distrib
          mult_less_0_iff)
  then show ?thesis by (simp add: multiply_def py_mul_def)
qed

lemma divide_integers:
  assumes "\<bar>i * j\<bar> < 2 ^ 53" "\<bar>j\<bar> < 2 ^ 53" "\<bar>i\<bar> < 2 ^ 53" "i \<noteq> 0" "j \<noteq> 0"
  shows "divide_tool (float_of_int (i * j)) (float_of_int j) = Inr (float_of_int i)"
proof -
  have "fdiv (float_of_int (i * j)) (float_of_int j) = float_of_int i"
    using assms
    by (intro fdiv_exact)
       (auto simp: float_of_int_exact float_of_int_zero_iff magnitude_float_of_int abs_mult
          nat_mult_distrib mult_less_0_iff)
  moreover have "\<not> is_zero (float_of_int j)" using assms by (simp add: float_of_int_zero_iff)
  ultimately show ?thesis
    by (simp add: divide_tool_def py_truediv_def float_eq_int_0_iff float_eq_pos_zero_iff)
qed

text \<open>The scenarios of the specification.\<close>

lemma scenario_add: "add (float_of_int 2) (float_of_int 3) = Inr (float_of_int 5)"
  using add_integers [of 2 3] by simp

lemma scenario_subtract: "subtract (float_of_int 10) (float_of_int 4) = Inr (float_of_int 6)"
  using subtract_integers [of 10 4] by simp

lemma scenario_multiply: "multiply (float_of_int 6) (float_of_int 7) = Inr (float_of_int 42)"
  using multiply_integers [of 6 7] by simp

lemma scenario_divide_by_zero:
  "divide_tool (float_of_int 10) (float_of_int 0) = Inl (ValueError ''Cannot divide by zero'')"
  by (simp add: divide_tool_def float_eq_int_0_iff float_of_int_zero_iff)

lemma scenario_divide: "divide_tool (float_of_int 9) (float_of_int 3) = Inr (float_of_int 3)"
  using divide_integers [of 3 3] by simp

lemma float_of_int_two: "float_of_int 2 = dbl_two"
proof -
  have "\<not> is_nan (float_of_int 2)" using float_of_int_exact(1) [of 2] by (simp add: finite_not_nan)
  then show ?thesis
    by (intro double_eqI) (simp_all add: magnitude_float_of_int, simp add: dbl_two_def)
qed

lemma add_negative_zero: "add neg_zero pos_zero = Inr pos_zero"
  by (simp add: add_def py_add_def fadd_finite is_finite_def signed_units_def magnitude_def
        neg_zero_def pos_zero_def)

section \<open>Counting in the prompt\<close>

lemmas prompt_defs = bodmas_calculation_prompt_def prompt_before_expression_def
  prompt_between_expressions_def prompt_after_expression_def

text \<open>
  An occurrence cannot run across a character that is not in \<open>sub\<close>, so the count of a
  text is the sum of the counts of its pieces when each piece ends in such a character.
\<close>

lemma prefix_append_last:
  assumes "xs \<noteq> []" "last xs \<notin> set sub"
  shows "prefix sub (xs @ ys) \<longleftrightarrow> prefix sub xs"
proof
  assume "prefix sub (xs @ ys)"
  then consider "prefix sub xs" | us where "sub = xs @ us"
    by (auto simp: prefix_append)
  then show "prefix sub xs"
  proof cases
    case 1
    then show ?thesis .
  next
    case 2
    with assms have "last xs \<in> set sub" by simp
    with assms show ?thesis by simp
  qed
next
  assume "prefix sub xs"
  then show "prefix sub (xs @ ys)" by (rule prefix_prefix)
qed

lemma count_occurrences_append:
  "xs \<noteq> [] \<Longrightarrow> last xs \<notin> set sub \<Longrightarrow>
   count_occurrences sub (xs @ ys) = count_occurrences sub xs + count_occurrences sub ys"
proof (induction xs)
  case Nil
  then show ?case by simp
next
  case (Cons x xs)
  have P: "prefix sub ((x # xs) @ ys) \<longleftrightarrow> prefix sub (x # xs)"
    using Cons.prems by (intro prefix_append_last) auto
  have T: "count_occurrences sub (xs @ ys) = count_occurrences sub xs + count_occurrences sub ys"
  proof (cases "xs = []")
    case True
    then show ?thesis by simp
  next
    case False
    with Cons show ?thesis by simp
  qed
  from P T show ?case by simp
qed

lemma count_occurrences_append3:
  "zs \<noteq> [] \<Longrightarrow> last zs \<notin> set sub \<Longrightarrow>
   count_occurrences sub (xs @ ys @ zs @ ws) =
   count_occurrences sub (xs @ ys @ zs) + count_occurrences sub ws"
  using count_occurrences_append [of "xs @ ys @ zs" sub ws] by simp

lemma count_expression:
  "count_occurrences ''2 + 3 * 4'' (bodmas_calculation_prompt ''2 + 3 * 4'') = 2"
  apply (simp add: prompt_defs count_occurrences_append count_occurrences_append3
           del: append.simps)
  apply simp
  done

lemma count_add: "count_occurrences ''add'' (bodmas_calculation_prompt ''2 + 3 * 4'') = 2"
  by (simp add: prompt_defs count_occurrences_append del: append.simps)

lemma count_subtract:
  "count_occurrences ''subtract'' (bodmas_calculation_prompt ''2 + 3 * 4'') = 2"
  by (simp add: prompt_defs count_occurrences_append del: append.simps)

lemma count_multiply:
  "count_occurrences ''multiply'' (bodmas_calculation_prompt ''2 + 3 * 4'') = 1"
  by (simp add: prompt_defs count_occurrences_append del: append.simps)

lemma count_divide:
  "count_occurrences ''divide'' (bodmas_calculation_prompt ''2 + 3 * 4'') = 1"
  by (simp add: prompt_defs count_occurrences_append del: append.simps)

lemma count_power:
  "count_occurrences ''power'' (bodmas_calculation_prompt ''2 + 3 * 4'') = 1"
  by (simp add: prompt_defs count_occurrences_append del: append.simps)

section \<open>Reading the image\<close>

text \<open>
  A readable file is returned as it is and nothing is printed. Otherwise a line is
  printed and the empty bytes are returned, unless \<^verbatim>\<open>print\<close> raises: the read raises
  exactly when the file cannot be read and standard output cannot be written.
\<close>

lemma image_read_readable:
  "files w ''resources/bodmas.jpg'' = Contents bytes \<Longrightarrow> bodmas_chart_image w = (Inr bytes, w)"
  by (simp add: bodmas_chart_image_def)

lemma image_read_unreadable:
  assumes "\<forall>bs. files w ''resources/bodmas.jpg'' \<noteq> Contents bs" "stdout_error w = None"
  shows "fst (bodmas_chart_image w) = Inr []"
  using assms
  by (cases "files w ''resources/bodmas.jpg''") (simp_all add: bodmas_chart_image_def print_line_def)

lemma image_read_raises_iff:
  "fst (bodmas_chart_image w) = Inl err \<longleftrightarrow>
     (\<forall>bs. files w ''resources/bodmas.jpg'' \<noteq> Contents bs) \<and> stdout_error w = Some err"
  by (cases "files w ''resources/bodmas.jpg''"; cases "stdout_error w")
     (simp_all add: bodmas_chart_image_def print_line_def)

section \<open>The claims\<close>

subsection \<open>Division\<close>



text \<open>
  C10. Negative zero equals zero, so for every \<open>a\<close> the call \<open>divide(a, -0.0)\<close> raises
  the \<^verbatim>\<open>ValueError\<close> of the guard.
\<close>

theorem divide_negative_zero:
  "float_eq neg_zero pos_zero \<and>
   divide_tool a neg_zero = Inl (ValueError ''Cannot divide by zero'')"
  by (simp add: divide_tool_def float_eq_int_0_iff float_eq_pos_zero_iff is_zero_def
        neg_zero_def)

subsection \<open>The prompt\<close>

text \<open>
  C4, as the code has it. For the expression \<^verbatim>\<open>2 + 3 * 4\<close> the prompt contains the expression
  exactly twice, \<^verbatim>\<open>multiply\<close>, \<^verbatim>\<open>divide\<close> and \<^verbatim>\<open>power\<close> exactly once each, and \<^verbatim>\<open>add\<close> and
  \<^verbatim>\<open>subtract\<close> exactly twice each: once as the name of the tool and once more inside
  the words \<^verbatim>\<open>addition\<close> and \<^verbatim>\<open>subtraction\<close> of the same line.
\<close>

theorem prompt_counts:
  "count_occurrences ''2 + 3 * 4'' (bodmas_calculation_prompt ''2 + 3 * 4'') = 2 \<and>
   count_occurrences ''add'' (bodmas_calculation_prompt ''2 + 3 * 4'') = 2 \<and>
   count_occurrences ''subtract'' (bodmas_calculation_prompt ''2 + 3 * 4'') = 2 \<and>
   count_occurrences ''multiply'' (bodmas_calculation_prompt ''2 + 3 * 4'') = 1 \<and>
   count_occurrences ''divide'' (bodmas_calculation_prompt ''2 + 3 * 4'') = 1 \<and>
   count_occurrences ''power'' (bodmas_calculation_prompt ''2 + 3 * 4'') = 1"
  using count_expression count_add count_subtract count_multiply count_divide count_power
  by simp

text \<open>
  C4, as stated, fails: the prompt does not contain each of the five names exactly once,
  since \<^verbatim>\<open>add\<close> occurs twice.
\<close>

theorem prompt_counts_counterexample:
  "\<not> (count_occurrences ''2 + 3 * 4'' (bodmas_calculation_prompt ''2 + 3 * 4'') = 2 \<and>
      count_occurrences ''add'' (bodmas_calculation_prompt ''2 + 3 * 4'') = 1 \<and>
      count_occurrences ''subtract'' (bodmas_calculation_prompt ''2 + 3 * 4'') = 1 \<and>
      count_occurrences ''multiply'' (bodmas_calculation_prompt ''2 + 3 * 4'') = 1 \<and>
      count_occurrences ''divide'' (bodmas_calculation_prompt ''2 + 3 * 4'') = 1 \<and>
      count_occurrences ''power'' (bodmas_calculation_prompt ''2 + 3 * 4'') = 1)"
  using count_add by simp

subsection \<open>The resources\<close>

text \<open>
  C5. Reading the image is to return the bytes of the file when the file can be read and
  the empty bytes when it cannot, and never to raise. The code does not keep to this
  when the file is absent and standard output cannot be written (here, a broken pipe):
  the \<^verbatim>\<open>print\<close> of the handler raises before the empty bytes are returned, and the read
  raises that exception.
\<close>

theorem image_read_print_fails:
  "fst (bodmas_chart_image
         \<lparr>files = (\<lambda>p. FileNotFoundError), printed = [],
          stdout_error = Some (OSError ''[Errno 32] Broken pipe'')\<rparr>)
     = Inl (OSError ''[Errno 32] Broken pipe'')"
  by (simp add: bodmas_chart_image_def print_line_def)

text \<open>
  C7. Reading the guide returns the same fixed, non-empty text in every world and on
  every call, changes nothing, and never raises.
\<close>

theorem guide_read:
  "bodmas_guide w = (Inr guide_text, w) \<and> guide_text \<noteq> [] \<and>
   fst (bodmas_guide w') = fst (bodmas_guide w) \<and>
   bodmas_guide (snd (bodmas_guide w)) = bodmas_guide w"
  by (simp add: bodmas_guide_def guide_text_def)

subsection \<open>Addition, subtraction, multiplication\<close>

text \<open>
  C2. For finite \<open>a\<close> and \<open>b\<close>, \<open>add\<close>, \<open>subtract\<close> and \<open>multiply\<close> never raise, and return
  the sum, difference and product of floating-point arithmetic: the exact result of the
  two values, rounded to nearest with ties to even (an infinity on overflow).
\<close>

theorem arithmetic_tools_rounded:
  assumes "is_finite a" "is_finite b"
  shows "(\<exists>r. add a b = Inr r \<and> ieee_rounded (valof a + valof b) r) \<and>
         (\<exists>r. subtract a b = Inr r \<and> ieee_rounded (valof a - valof b) r) \<and>
         (\<exists>r. multiply a b = Inr r \<and> ieee_rounded (valof a * valof b) r)"
  using assms
  by (simp add: add_def subtract_def multiply_def py_add_def py_sub_def py_mul_def
        fadd_ieee fsub_ieee fmul_ieee)

theorem arithmetic_tools_rounded_witness:
  "(\<exists>r. add dbl_one dbl_two = Inr r \<and> ieee_rounded (valof dbl_one + valof dbl_two) r) \<and>
   (\<exists>r. subtract dbl_one dbl_two = Inr r \<and> ieee_rounded (valof dbl_one - valof dbl_two) r) \<and>
   (\<exists>r. multiply dbl_one dbl_two = Inr r \<and> ieee_rounded (valof dbl_one * valof dbl_two) r)"
  using arithmetic_tools_rounded [of dbl_one dbl_two] by (simp add: dbl_two_more_facts)

subsection \<open>Laws of addition and multiplication\<close>

text \<open>
  C8. For finite \<open>a\<close> and \<open>b\<close>: \<open>add(a, b)\<close> and \<open>add(b, a)\<close> return the same number, and so
  do \<open>multiply(a, b)\<close> and \<open>multiply(b, a)\<close>; \<open>add(a, 0)\<close> equals \<open>a\<close> and \<open>multiply(a, 1)\<close> is
  \<open>a\<close>. Equality is that of floats (Python's \<^verbatim>\<open>==\<close>): \<open>add(-0.0, 0)\<close> is \<open>0.0\<close>, which
  equals \<open>-0.0\<close>. The results of the commuted calls are even the same bit for bit.
\<close>

theorem add_multiply_laws:
  assumes "is_finite a" "is_finite b"
  shows "(\<exists>r. add a b = Inr r \<and> add b a = Inr r \<and> float_eq r r) \<and>
         (\<exists>r. multiply a b = Inr r \<and> multiply b a = Inr r \<and> float_eq r r) \<and>
         (\<exists>r. add a pos_zero = Inr r \<and> float_eq r a) \<and>
         multiply a dbl_one = Inr a \<and> float_eq a a"
proof -
  have 1: "float_eq (fadd a b) (fadd a b)" "float_eq (fmul a b) (fmul a b)"
    using assms by (simp_all add: float_eq_def fadd_finite_not_nan fmul_finite_not_nan)
  have 2: "float_eq (fadd a pos_zero) a"
    using assms
    by (simp add: fadd_pos_zero float_eq_def finite_not_nan signed_units_eq_0_iff [THEN iffD2])
  from 1 2 assms show ?thesis
    by (simp add: add_def multiply_def py_add_def py_mul_def fmul_one
          fadd_commute [of b a] fmul_commute [of b a] float_eq_def finite_not_nan)
qed

theorem add_multiply_laws_witness:
  "(\<exists>r. add dbl_one dbl_two = Inr r \<and> add dbl_two dbl_one = Inr r \<and> float_eq r r) \<and>
   (\<exists>r. multiply dbl_one dbl_two = Inr r \<and> multiply dbl_two dbl_one = Inr r \<and> float_eq r r) \<and>
   (\<exists>r. add dbl_one pos_zero = Inr r \<and> float_eq r dbl_one) \<and>
   multiply dbl_one dbl_one = Inr dbl_one \<and> float_eq dbl_one dbl_one"
  using add_multiply_laws [of dbl_one dbl_two] by (simp add: dbl_two_more_facts)

subsection \<open>Power\<close>






text \<open>
  C9. For a negative finite base and a finite exponent that is not an integer, as in
  \<open>power(-8, 0.5)\<close>, the result is never a float: \<open>power\<close> returns the complex number
  that the complex power computes.
\<close>

theorem power_negative_base_fractional:
  assumes "is_finite b" "float_lt b pos_zero" "is_finite e" "\<not> float_eq e (c_floor e)"
  shows "(\<forall>x. power_tool P b e \<noteq> Inr (PyFloat x)) \<and>
         (complex_pow P b e = Inr (re, im) \<longrightarrow> power_tool P b e = Inr (PyComplex re im))"
proof -
  from assms(4) have "\<not> is_zero e" using float_eq_c_floor_zero by blast
  moreover from assms(2) have "sign_bit b" "\<not> is_zero b"
    by (simp_all add: float_lt_pos_zero_iff)
  ultimately show ?thesis
    using assms by (auto simp: power_tool_def py_pow_finite split: sum.splits)
qed

theorem power_negative_base_fractional_witness:
  "power_tool sample_platform dbl_neg_eight dbl_half =
     Inr (PyComplex (Double False 970 0x8f5a0be038ed7) (Double False 1024 0x6a09e667f3bcd))"
proof -
  have "complex_pow sample_platform dbl_neg_eight dbl_half =
      Inr (Double False 970 0x8f5a0be038ed7, Double False 1024 0x6a09e667f3bcd)"
    by (simp add: sample_platform_def ieee_platform_def)
  with power_negative_base_fractional [OF dbl_neg_eight_facts dbl_half_facts]
  show ?thesis by blast
qed

end
